theory Spec2Isabelle
  imports Complex_Main
begin

section \<open>Python values used by debruijn.py\<close>

text \<open>
  Exceptions the modelled code can raise, as values. A function that can raise
  returns \<open>error + 'a\<close>, with \<open>Inl\<close> for the exception.
\<close>

datatype error =
    UnboundLocalError
  | StatisticsError
  | ValueError
  | IndexError
  | KeyError
  | NetworkXError
  | NetworkXPointlessConcept
  | NodeNotFound
  | ZeroDivisionError

text \<open>
  Python slicing \<^verbatim>\<open>xs[i:j]\<close> for arbitrary integers: a negative bound counts
  from the end, every bound is clamped to the list, and an empty range gives the
  empty list (never an exception).
\<close>

definition py_bound :: "nat \<Rightarrow> int \<Rightarrow> nat" where
  "py_bound n i = nat (if i < 0 then max (i + int n) 0 else min i (int n))"

definition py_slice :: "'a list \<Rightarrow> int \<Rightarrow> int \<Rightarrow> 'a list" where
  "py_slice xs i j =
     (let lo = py_bound (length xs) i; hi = py_bound (length xs) j
      in take (hi - lo) (drop lo xs))"

text \<open>\<^verbatim>\<open>range(n)\<close>: empty when \<open>n \<le> 0\<close>.\<close>

definition py_range :: "int \<Rightarrow> int list" where
  "py_range n = map int [0 ..< nat n]"

text \<open>
  A \<^verbatim>\<open>dict\<close> keeps its keys in insertion order, so it is an association list
  with distinct keys: assigning to a present key keeps the key's position, assigning
  to a new key appends it.
\<close>

fun dict_set :: "'k \<Rightarrow> 'v \<Rightarrow> ('k \<times> 'v) list \<Rightarrow> ('k \<times> 'v) list" where
  "dict_set k v [] = [(k, v)]"
| "dict_set k v (p # ps) = (if fst p = k then (k, v) # ps else p # dict_set k v ps)"

text \<open>
  \<^verbatim>\<open>collections.Counter\<close>: a missing key reads as 0. \<open>counter_add c k n\<close> is
  \<^verbatim>\<open>c[k] += n\<close>; \<open>Counter xs\<close> counts an iterable; \<open>counter_iadd\<close> is
  \<^verbatim>\<open>self += other\<close>, which adds every count of \<open>other\<close> and then keeps the
  positive counts only.
\<close>

definition counter_get :: "('k \<times> int) list \<Rightarrow> 'k \<Rightarrow> int" where
  "counter_get c k = (case map_of c k of None \<Rightarrow> 0 | Some n \<Rightarrow> n)"

definition counter_add :: "('k \<times> int) list \<Rightarrow> 'k \<Rightarrow> int \<Rightarrow> ('k \<times> int) list" where
  "counter_add c k n = dict_set k (counter_get c k + n) c"

definition Counter :: "'k list \<Rightarrow> ('k \<times> int) list" where
  "Counter xs = foldl (\<lambda>c x. counter_add c x 1) [] xs"

definition keep_positive :: "('k \<times> int) list \<Rightarrow> ('k \<times> int) list" where
  "keep_positive c = filter (\<lambda>p. 0 < snd p) c"

definition counter_iadd :: "('k \<times> int) list \<Rightarrow> ('k \<times> int) list \<Rightarrow> ('k \<times> int) list" where
  "counter_iadd self other =
     keep_positive (foldl (\<lambda>c p. counter_add c (fst p) (snd p)) self other)"

section \<open>K-mer counter\<close>

text \<open>
  \<^verbatim>\<open>cut_kmer(read, kmer_size)\<close>: the generator yields
  \<^verbatim>\<open>read[idx:idx+kmer_size]\<close> for \<^verbatim>\<open>idx in range(len(read)-kmer_size+1)\<close>.
\<close>

definition cut_kmer :: "string \<Rightarrow> int \<Rightarrow> string list" where
  "cut_kmer read kmer_size =
     map (\<lambda>idx. py_slice read idx (idx + kmer_size))
       (py_range (int (length read) - kmer_size + 1))"

text \<open>
  \<^verbatim>\<open>build_kmer_dict\<close>. The reads that \<^verbatim>\<open>read_fastq\<close> yields are the
  argument \<open>reads\<close>. The loop body assigns the local \<^verbatim>\<open>kmer_count\<close> and nothing
  else; \<open>kmer_loop\<close> carries that variable, \<open>None\<close> while it is unbound. The
  statement \<^verbatim>\<open>kmer_dict += kmer_count\<close> stands after the loop (it is not
  indented under \<^verbatim>\<open>for\<close>), so it runs once and reads the variable as the loop
  left it; reading it unbound raises \<^verbatim>\<open>UnboundLocalError\<close>.
\<close>

fun kmer_loop ::
  "string list \<Rightarrow> int \<Rightarrow> (string \<times> int) list option \<Rightarrow> (string \<times> int) list option" where
  "kmer_loop [] kmer_size kmer_count = kmer_count"
| "kmer_loop (read # reads) kmer_size kmer_count =
     kmer_loop reads kmer_size (Some (Counter (cut_kmer read kmer_size)))"

definition build_kmer_dict :: "string list \<Rightarrow> int \<Rightarrow> error + (string \<times> int) list" where
  "build_kmer_dict reads kmer_size =
     (case kmer_loop reads kmer_size None of
        None \<Rightarrow> Inl UnboundLocalError
      | Some kmer_count \<Rightarrow> Inr (counter_iadd [] kmer_count))"

text \<open>The sum of the counts of a mapping, and the number of length-\<open>k\<close> windows of a read.\<close>

definition total_count :: "('k \<times> int) list \<Rightarrow> int" where
  "total_count d = sum_list (map snd d)"

definition windows :: "string \<Rightarrow> int \<Rightarrow> int" where
  "windows read k = max 0 (int (length read) - k + 1)"

section \<open>The graph\<close>

text \<open>
  \<^verbatim>\<open>networkx.DiGraph\<close> as the program uses it. The library keeps its nodes and
  its adjacency in dictionaries, hence in insertion order: \<open>nodes\<close> is the node
  dictionary's key order and \<open>edges\<close> lists every edge once, with its
  \<^verbatim>\<open>weight\<close> attribute, in the order of first insertion. The successors of a
  node (and its predecessors) are read off that list, which gives them in the order
  the adjacency dictionaries hold them.
\<close>

type_synonym node = string

record graph =
  nodes :: "node list"
  edges :: "((node \<times> node) \<times> int) list"

definition empty_graph :: graph where
  "empty_graph = \<lparr>nodes = [], edges = []\<rparr>"

definition add_node :: "graph \<Rightarrow> node \<Rightarrow> graph" where
  "add_node g n = (if n \<in> set (nodes g) then g else g\<lparr>nodes := nodes g @ [n]\<rparr>)"

text \<open>
  \<^verbatim>\<open>add_edge(u, v, weight=w)\<close> adds the missing end nodes, \<open>u\<close> first, and
  sets the edge's weight; an edge that exists keeps its place and has its weight
  overwritten.
\<close>

definition add_edge :: "graph \<Rightarrow> node \<Rightarrow> node \<Rightarrow> int \<Rightarrow> graph" where
  "add_edge g u v w =
     (let g' = add_node (add_node g u) v
      in g'\<lparr>edges := dict_set (u, v) w (edges g')\<rparr>)"

definition succ_of :: "graph \<Rightarrow> node \<Rightarrow> node list" where
  "succ_of g u = map (\<lambda>e. snd (fst e)) (filter (\<lambda>e. fst (fst e) = u) (edges g))"

definition pred_of :: "graph \<Rightarrow> node \<Rightarrow> node list" where
  "pred_of g v = map (\<lambda>e. fst (fst e)) (filter (\<lambda>e. snd (fst e) = v) (edges g))"

text \<open>
  \<^verbatim>\<open>graph.successors(n)\<close> and \<^verbatim>\<open>graph.predecessors(n)\<close> raise
  \<^verbatim>\<open>NetworkXError\<close> for a node that is not in the graph.
\<close>

definition successors :: "graph \<Rightarrow> node \<Rightarrow> error + node list" where
  "successors g n = (if n \<in> set (nodes g) then Inr (succ_of g n) else Inl NetworkXError)"

definition predecessors :: "graph \<Rightarrow> node \<Rightarrow> error + node list" where
  "predecessors g n = (if n \<in> set (nodes g) then Inr (pred_of g n) else Inl NetworkXError)"

text \<open>
  \<^verbatim>\<open>remove_nodes_from\<close> deletes each node with its incident edges and skips a
  node that is not (or no longer) in the graph.
\<close>

definition remove_node :: "graph \<Rightarrow> node \<Rightarrow> graph" where
  "remove_node g n =
     (if n \<in> set (nodes g)
      then \<lparr>nodes = filter (\<lambda>m. m \<noteq> n) (nodes g),
            edges = filter (\<lambda>e. fst (fst e) \<noteq> n \<and> snd (fst e) \<noteq> n) (edges g)\<rparr>
      else g)"

definition remove_nodes_from :: "graph \<Rightarrow> node list \<Rightarrow> graph" where
  "remove_nodes_from g ns = foldl remove_node g ns"

text \<open>\<^verbatim>\<open>graph[u][v]['weight']\<close> raises \<^verbatim>\<open>KeyError\<close> when there is no such edge.\<close>

definition edge_weight :: "graph \<Rightarrow> node \<Rightarrow> node \<Rightarrow> error + int" where
  "edge_weight g u v = (case map_of (edges g) (u, v) of None \<Rightarrow> Inl KeyError | Some w \<Rightarrow> Inr w)"

text \<open>A bounded iteration, for the library's graph searches.\<close>

fun iterate :: "nat \<Rightarrow> ('a \<Rightarrow> 'a) \<Rightarrow> 'a \<Rightarrow> 'a" where
  "iterate 0 f x = x"
| "iterate (Suc n) f x = iterate n f (f x)"

text \<open>
  \<^verbatim>\<open>has_path(G, source, target)\<close>: whether a directed path leads from
  \<open>source\<close> to \<open>target\<close> (a node reaches itself); \<^verbatim>\<open>NodeNotFound\<close> when one
  of them is not in the graph. The nodes reachable from \<open>source\<close> are collected by
  adding successors as many times as the graph has nodes.
\<close>

definition succ_step :: "graph \<Rightarrow> node list \<Rightarrow> node list" where
  "succ_step g S = remdups (S @ concat (map (succ_of g) S))"

definition reachable_from :: "graph \<Rightarrow> node \<Rightarrow> node list" where
  "reachable_from g s = iterate (length (nodes g)) (succ_step g) [s]"

definition has_path :: "graph \<Rightarrow> node \<Rightarrow> node \<Rightarrow> error + bool" where
  "has_path g source target =
     (if source \<in> set (nodes g) \<and> target \<in> set (nodes g)
      then Inr (target \<in> set (reachable_from g source))
      else Inl NodeNotFound)"

text \<open>
  \<^verbatim>\<open>all_simple_paths(G, source, target)\<close>, as networkx 3 enumerates them: a
  depth-first search from \<open>source\<close> that follows the successors in their stored
  order, never revisits a node of the current path, yields the path whenever it
  enters a target, and extends a path only while some target is not on it and the
  path has fewer than \<^verbatim>\<open>cutoff = len(G) - 1\<close> edges. \<open>visited\<close> is the current
  path, last node first; \<open>fuel\<close> is the number of edges the path may still grow by.
\<close>

fun simple_paths_from :: "nat \<Rightarrow> graph \<Rightarrow> node list \<Rightarrow> node list \<Rightarrow> node \<Rightarrow> node list list" where
  "simple_paths_from 0 g targets visited cur = []"
| "simple_paths_from (Suc fuel) g targets visited cur =
     concat (map (\<lambda>child.
        if child \<in> set visited then []
        else (if child \<in> set targets then [rev (child # visited)] else []) @
             (if set targets \<subseteq> set (child # visited) then []
              else simple_paths_from fuel g targets (child # visited) child))
       (succ_of g cur))"

text \<open>
  A source outside the graph raises \<^verbatim>\<open>NodeNotFound\<close>. A target outside the
  graph is read by the library as a collection of targets; for a string that is the
  set of its one-character substrings. A source that is itself a target gives the
  one-node path first.
\<close>

definition all_simple_paths :: "graph \<Rightarrow> node \<Rightarrow> node \<Rightarrow> error + node list list" where
  "all_simple_paths g source target =
     (if source \<notin> set (nodes g) then Inl NodeNotFound
      else
        let targets = (if target \<in> set (nodes g) then [target]
                       else remdups (map (\<lambda>c. [c]) target));
            cutoff = int (length (nodes g)) - 1
        in if 0 \<le> cutoff \<and> targets \<noteq> []
           then Inr ((if source \<in> set targets then [[source]] else []) @
                     (if set targets \<subseteq> {source} then []
                      else simple_paths_from (nat cutoff) g targets [source] source))
           else Inr [])"

section \<open>Graph builder\<close>

text \<open>
  \<^verbatim>\<open>build_graph\<close>: one \<^verbatim>\<open>add_edge(kmer[:-1], kmer[1:], weight=occurrence)\<close>
  per item of the dictionary, in the dictionary's order.
\<close>

definition build_graph :: "(string \<times> int) list \<Rightarrow> graph" where
  "build_graph kmer_dict =
     foldl (\<lambda>digraph item. add_edge digraph (butlast (fst item)) (drop 1 (fst item)) (snd item))
       empty_graph kmer_dict"

section \<open>Entry and exit nodes, contig extraction\<close>

definition get_starting_nodes :: "graph \<Rightarrow> node list" where
  "get_starting_nodes g = filter (\<lambda>n. pred_of g n = []) (nodes g)"

definition get_sink_nodes :: "graph \<Rightarrow> node list" where
  "get_sink_nodes g = filter (\<lambda>n. succ_of g n = []) (nodes g)"

text \<open>A loop whose body can raise: the first exception ends it.\<close>

fun map_err :: "('a \<Rightarrow> error + 'b) \<Rightarrow> 'a list \<Rightarrow> error + 'b list" where
  "map_err f [] = Inr []"
| "map_err f (x # xs) =
     (case f x of
        Inl e \<Rightarrow> Inl e
      | Inr y \<Rightarrow> (case map_err f xs of Inl e \<Rightarrow> Inl e | Inr ys \<Rightarrow> Inr (y # ys)))"

text \<open>
  The contig of a path: \<^verbatim>\<open>path[0]\<close> followed by \<^verbatim>\<open>node[-1]\<close> of every
  later node; indexing an empty path or an empty node raises \<^verbatim>\<open>IndexError\<close>.
\<close>

definition last_char :: "node \<Rightarrow> error + char" where
  "last_char n = (if n = [] then Inl IndexError else Inr (last n))"

definition contig_of_path :: "node list \<Rightarrow> error + (string \<times> nat)" where
  "contig_of_path path =
     (case path of
        [] \<Rightarrow> Inl IndexError
      | first # rest \<Rightarrow>
          (case map_err last_char rest of
             Inl e \<Rightarrow> Inl e
           | Inr cs \<Rightarrow> Inr (first @ cs, length (first @ cs))))"

text \<open>
  \<^verbatim>\<open>get_contigs\<close>: for every start, for every end with
  \<^verbatim>\<open>has_path(graph, start, end)\<close>, the contig of every simple path from start to
  end, in the order of the loops.
\<close>

definition contigs_between :: "graph \<Rightarrow> node \<Rightarrow> node \<Rightarrow> error + (string \<times> nat) list" where
  "contigs_between g start end_node =
     (case has_path g start end_node of
        Inl e \<Rightarrow> Inl e
      | Inr reachable \<Rightarrow>
          if reachable
          then (case all_simple_paths g start end_node of
                  Inl e \<Rightarrow> Inl e
                | Inr paths \<Rightarrow> map_err contig_of_path paths)
          else Inr [])"

definition get_contigs :: "graph \<Rightarrow> node list \<Rightarrow> node list \<Rightarrow> error + (string \<times> nat) list" where
  "get_contigs g starting_nodes ending_nodes =
     (case map_err (\<lambda>start. case map_err (contigs_between g start) ending_nodes of
                               Inl e \<Rightarrow> Inl e
                             | Inr cs \<Rightarrow> Inr (concat cs))
             starting_nodes of
        Inl e \<Rightarrow> Inl e
      | Inr cs \<Rightarrow> Inr (concat cs))"

section \<open>Path scorer\<close>

text \<open>
  \<^verbatim>\<open>statistics.mean\<close> and \<^verbatim>\<open>statistics.stdev\<close> compute with exact
  fractions and round once at the end; the model keeps the exact value as a real
  number. \<^verbatim>\<open>mean\<close> raises \<^verbatim>\<open>StatisticsError\<close> on no data,
  \<^verbatim>\<open>stdev\<close> on fewer than two data points; the standard deviation is the
  square root of the sample variance.
\<close>

definition mean :: "real list \<Rightarrow> error + real" where
  "mean xs = (if xs = [] then Inl StatisticsError else Inr (sum_list xs / real (length xs)))"

definition variance :: "real list \<Rightarrow> error + real" where
  "variance xs =
     (if length xs < 2 then Inl StatisticsError
      else let m = sum_list xs / real (length xs)
           in Inr (sum_list (map (\<lambda>x. (x - m) * (x - m)) xs) / real (length xs - 1)))"

definition stdev :: "real list \<Rightarrow> error + real" where
  "stdev xs = (case variance xs of Inl e \<Rightarrow> Inl e | Inr v \<Rightarrow> Inr (sqrt v))"

text \<open>
  \<^verbatim>\<open>graph.subgraph(path).edges(data=True)\<close>: the edges of the graph both of
  whose ends are nodes of \<open>path\<close> (nodes of \<open>path\<close> that are not in the graph are
  ignored).
\<close>

definition subgraph_edges :: "graph \<Rightarrow> node list \<Rightarrow> ((node \<times> node) \<times> int) list" where
  "subgraph_edges g path =
     filter (\<lambda>e. fst (fst e) \<in> set path \<inter> set (nodes g) \<and>
                 snd (fst e) \<in> set path \<inter> set (nodes g)) (edges g)"

definition path_average_weight :: "graph \<Rightarrow> node list \<Rightarrow> error + real" where
  "path_average_weight g path = mean (map (\<lambda>e. real_of_int (snd e)) (subgraph_edges g path))"

text \<open>
  The weights along a path, \<^verbatim>\<open>[graph[u][v]['weight'] for u, v in
  zip(path[:-1], path[1:])]\<close>, as \<^verbatim>\<open>solve_bubble\<close> reads them.
\<close>

definition path_edge_weights :: "graph \<Rightarrow> node list \<Rightarrow> error + int list" where
  "path_edge_weights g path =
     map_err (\<lambda>uv. edge_weight g (fst uv) (snd uv)) (zip (butlast path) (drop 1 path))"

section \<open>Path removal and best-path selection\<close>

text \<open>
  \<^verbatim>\<open>remove_paths\<close>: \<^verbatim>\<open>path[1:]\<close> unless the entry node is to be deleted,
  then \<^verbatim>\<open>path[:-1]\<close> unless the sink node is to be deleted, then
  \<^verbatim>\<open>remove_nodes_from\<close>.
\<close>

definition trim_path :: "bool \<Rightarrow> bool \<Rightarrow> node list \<Rightarrow> node list" where
  "trim_path delete_entry_node delete_sink_node path =
     (let path1 = (if \<not> delete_entry_node then drop 1 path else path);
          path2 = (if \<not> delete_sink_node then butlast path1 else path1)
      in path2)"

definition remove_paths :: "graph \<Rightarrow> node list list \<Rightarrow> bool \<Rightarrow> bool \<Rightarrow> graph" where
  "remove_paths g path_list delete_entry_node delete_sink_node =
     foldl (\<lambda>graph path. remove_nodes_from graph (trim_path delete_entry_node delete_sink_node path))
       g path_list"

text \<open>\<^verbatim>\<open>max(xs)\<close> and \<^verbatim>\<open>xs.index(x)\<close>; both raise \<^verbatim>\<open>ValueError\<close> when there is no answer.\<close>

definition py_max :: "'a::linorder list \<Rightarrow> error + 'a" where
  "py_max xs = (case xs of [] \<Rightarrow> Inl ValueError | x # rest \<Rightarrow> Inr (foldl max x rest))"

fun py_index :: "'a list \<Rightarrow> 'a \<Rightarrow> error + nat" where
  "py_index [] x = Inl ValueError"
| "py_index (y # ys) x =
     (if y = x then Inr 0
      else case py_index ys x of Inl e \<Rightarrow> Inl e | Inr i \<Rightarrow> Inr (Suc i))"

text \<open>
  The random source. The module seeds Python's global generator once, at import
  (\<^verbatim>\<open>random.seed(9001)\<close>); its state is threaded through the model as \<open>s\<close>. The
  generator itself is a parameter: \<open>randbelow s n\<close> is the library's draw of a number
  below \<open>n\<close> from state \<open>s\<close>, with the next state (the reduction modulo \<open>n\<close> only
  records that the draw is below \<open>n\<close>). \<^verbatim>\<open>random.randint(a, b)\<close> is
  \<^verbatim>\<open>a + randbelow(b - a + 1)\<close> and raises \<^verbatim>\<open>ValueError\<close> on an empty range.
\<close>

definition randint :: "('r \<Rightarrow> nat \<Rightarrow> nat \<times> 'r) \<Rightarrow> 'r \<Rightarrow> int \<Rightarrow> int \<Rightarrow> error + (int \<times> 'r)" where
  "randint randbelow s a b =
     (if b < a then Inl ValueError
      else let n = nat (b - a + 1); draw = randbelow s n
           in Inr (a + int (fst draw mod n), snd draw))"

text \<open>
  The choice of \<^verbatim>\<open>best_path_index\<close> in \<^verbatim>\<open>select_best_path\<close>: the first index
  of the greatest average weight when the weights' standard deviation is positive,
  else the first index of the greatest length when the lengths' is, else a random
  index.
\<close>

definition first_max_index :: "'a::linorder list \<Rightarrow> error + nat" where
  "first_max_index xs = (case py_max xs of Inl e \<Rightarrow> Inl e | Inr m \<Rightarrow> py_index xs m)"

definition best_path_index ::
  "('r \<Rightarrow> nat \<Rightarrow> nat \<times> 'r) \<Rightarrow> 'r \<Rightarrow> node list list \<Rightarrow> int list \<Rightarrow> real list \<Rightarrow> error + (int \<times> 'r)" where
  "best_path_index randbelow s path_list path_length weight_avg_list =
     (case stdev weight_avg_list of
        Inl e \<Rightarrow> Inl e
      | Inr weight_stdev \<Rightarrow>
          if 0 < weight_stdev
          then (case first_max_index weight_avg_list of
                  Inl e \<Rightarrow> Inl e | Inr i \<Rightarrow> Inr (int i, s))
          else (case stdev (map real_of_int path_length) of
                  Inl e \<Rightarrow> Inl e
                | Inr length_stdev \<Rightarrow>
                    if 0 < length_stdev
                    then (case first_max_index path_length of
                            Inl e \<Rightarrow> Inl e | Inr i \<Rightarrow> Inr (int i, s))
                    else randint randbelow s 0 (int (length path_list) - 1)))"

text \<open>\<^verbatim>\<open>[path for i, path in enumerate(path_list) if i != best_path_index]\<close>\<close>

definition paths_to_remove :: "int \<Rightarrow> node list list \<Rightarrow> node list list" where
  "paths_to_remove best path_list =
     map snd (filter (\<lambda>ip. int (fst ip) \<noteq> best) (enumerate 0 path_list))"

text \<open>
  \<^verbatim>\<open>select_best_path\<close> returns the graph (mutated in place by
  \<^verbatim>\<open>remove_paths\<close>, its last statement) and leaves the random source in a new
  state. Every exception is raised before the graph is touched.
\<close>

definition select_best_path ::
  "('r \<Rightarrow> nat \<Rightarrow> nat \<times> 'r) \<Rightarrow> 'r \<Rightarrow> graph \<Rightarrow> node list list \<Rightarrow> int list \<Rightarrow> real list \<Rightarrow>
     bool \<Rightarrow> bool \<Rightarrow> error + (graph \<times> 'r)" where
  "select_best_path randbelow s g path_list path_length weight_avg_list
       delete_entry_node delete_sink_node =
     (if length path_list = 1 then Inr (g, s)
      else case best_path_index randbelow s path_list path_length weight_avg_list of
             Inl e \<Rightarrow> Inl e
           | Inr (best, s') \<Rightarrow>
               Inr (remove_paths g (paths_to_remove best path_list)
                      delete_entry_node delete_sink_node, s'))"

section \<open>Lowest common ancestor\<close>

text \<open>
  \<^verbatim>\<open>networkx.lowest_common_ancestor(G, node1, node2)\<close>, as networkx 3 computes
  it. It raises \<^verbatim>\<open>NetworkXError\<close> on a graph with a cycle,
  \<^verbatim>\<open>NetworkXPointlessConcept\<close> on the graph without nodes and
  \<^verbatim>\<open>NodeNotFound\<close> when one of the two nodes is not in the graph. Otherwise it
  intersects the two sets of ancestors (each node counted among its own ancestors);
  an empty intersection gives \<^verbatim>\<open>None\<close>. From some element of the intersection
  (the first one a Python set happens to iterate, which the program does not
  control: \<open>pick\<close> chooses its position) it moves to the first successor that is a
  common ancestor too, until there is none.
\<close>

definition pred_step :: "graph \<Rightarrow> node list \<Rightarrow> node list" where
  "pred_step g S = remdups (S @ concat (map (pred_of g) S))"

definition ancestors_from :: "graph \<Rightarrow> node list \<Rightarrow> node list" where
  "ancestors_from g S = iterate (length (nodes g)) (pred_step g) S"

definition is_directed_acyclic_graph :: "graph \<Rightarrow> bool" where
  "is_directed_acyclic_graph g =
     list_all (\<lambda>n. n \<notin> set (ancestors_from g (pred_of g n))) (nodes g)"

fun lca_descend :: "nat \<Rightarrow> graph \<Rightarrow> node list \<Rightarrow> node \<Rightarrow> node" where
  "lca_descend 0 g common a = a"
| "lca_descend (Suc n) g common a =
     (case filter (\<lambda>lower. lower \<in> set common) (succ_of g a) of
        [] \<Rightarrow> a
      | successor # _ \<Rightarrow> lca_descend n g common successor)"

definition lowest_common_ancestor ::
  "(node list \<Rightarrow> nat) \<Rightarrow> graph \<Rightarrow> node \<Rightarrow> node \<Rightarrow> error + node option" where
  "lowest_common_ancestor pick g node1 node2 =
     (if \<not> is_directed_acyclic_graph g then Inl NetworkXError
      else if nodes g = [] then Inl NetworkXPointlessConcept
      else if node1 \<notin> set (nodes g) \<or> node2 \<notin> set (nodes g) then Inl NodeNotFound
      else
        let common = filter (\<lambda>n. n \<in> set (ancestors_from g [node1]) \<and>
                                   n \<in> set (ancestors_from g [node2])) (nodes g)
        in if common = [] then Inr None
           else Inr (Some (lca_descend (length (nodes g)) g common
                             (common ! (pick common mod length common)))))"

text \<open>
  The pairs \<open>(xs[i], xs[j])\<close> with \<open>i < j\<close>, in the order of the nested index loops of
  \<^verbatim>\<open>simplify_bubbles\<close>, which is the order of \<^verbatim>\<open>itertools.combinations(xs, 2)\<close>.
\<close>

fun combinations2 :: "'a list \<Rightarrow> ('a \<times> 'a) list" where
  "combinations2 [] = []"
| "combinations2 (x # xs) = map (Pair x) xs @ combinations2 xs"

section \<open>Bubble simplifier\<close>

text \<open>
  \<^verbatim>\<open>solve_bubble\<close>: all simple paths from the ancestor to the descendant, their
  lengths, the mean of the weights along each (\<^verbatim>\<open>sum(w) / len(w)\<close>, a division
  by zero for a path without an edge), and \<^verbatim>\<open>select_best_path\<close> with both
  deletion flags off.
\<close>

definition path_mean_weight :: "graph \<Rightarrow> node list \<Rightarrow> error + real" where
  "path_mean_weight g path =
     (case path_edge_weights g path of
        Inl e \<Rightarrow> Inl e
      | Inr edge_weights \<Rightarrow>
          if edge_weights = [] then Inl ZeroDivisionError
          else Inr (real_of_int (sum_list edge_weights) / real (length edge_weights)))"

definition solve_bubble ::
  "('r \<Rightarrow> nat \<Rightarrow> nat \<times> 'r) \<Rightarrow> 'r \<Rightarrow> graph \<Rightarrow> node \<Rightarrow> node \<Rightarrow> error + (graph \<times> 'r)" where
  "solve_bubble randbelow s g ancestor_node descendant_node =
     (case all_simple_paths g ancestor_node descendant_node of
        Inl e \<Rightarrow> Inl e
      | Inr paths \<Rightarrow>
          (case map_err (path_mean_weight g) paths of
             Inl e \<Rightarrow> Inl e
           | Inr weights \<Rightarrow>
               select_best_path randbelow s g paths (map (\<lambda>path. int (length path)) paths)
                 weights False False))"

text \<open>
  The detection loops of \<^verbatim>\<open>simplify_bubbles\<close>: the first node, in node order,
  with more than one predecessor and a pair of predecessors \<open>(i, j)\<close>, \<open>i < j\<close>, whose
  lowest common ancestor is not \<^verbatim>\<open>None\<close>; the result is that ancestor and the
  node.
\<close>

fun find_ancestor ::
  "(node list \<Rightarrow> nat) \<Rightarrow> graph \<Rightarrow> (node \<times> node) list \<Rightarrow> error + node option" where
  "find_ancestor pick g [] = Inr None"
| "find_ancestor pick g (pq # rest) =
     (case lowest_common_ancestor pick g (fst pq) (snd pq) of
        Inl e \<Rightarrow> Inl e
      | Inr None \<Rightarrow> find_ancestor pick g rest
      | Inr (Some noeud_ancetre) \<Rightarrow> Inr (Some noeud_ancetre))"

fun find_bubble ::
  "(node list \<Rightarrow> nat) \<Rightarrow> graph \<Rightarrow> node list \<Rightarrow> error + (node \<times> node) option" where
  "find_bubble pick g [] = Inr None"
| "find_bubble pick g (noeud # rest) =
     (if 1 < length (pred_of g noeud)
      then (case find_ancestor pick g (combinations2 (pred_of g noeud)) of
              Inl e \<Rightarrow> Inl e
            | Inr None \<Rightarrow> find_bubble pick g rest
            | Inr (Some noeud_ancetre) \<Rightarrow> Inr (Some (noeud_ancetre, noeud)))
      else find_bubble pick g rest)"

text \<open>
  \<^verbatim>\<open>simplify_bubbles\<close> calls itself on the graph that \<^verbatim>\<open>solve_bubble\<close>
  returns for the bubble found, and returns the graph when no bubble is found. The
  first argument bounds the depth of the recursion, as the interpreter's recursion
  limit does (the module sets it to 10000): \<open>None\<close> is the call that would go deeper.
\<close>

fun simplify_bubbles ::
  "nat \<Rightarrow> (node list \<Rightarrow> nat) \<Rightarrow> ('r \<Rightarrow> nat \<Rightarrow> nat \<times> 'r) \<Rightarrow> 'r \<Rightarrow> graph \<Rightarrow>
     (error + (graph \<times> 'r)) option" where
  "simplify_bubbles 0 pick randbelow s g = None"
| "simplify_bubbles (Suc depth) pick randbelow s g =
     (case find_bubble pick g (nodes g) of
        Inl e \<Rightarrow> Some (Inl e)
      | Inr None \<Rightarrow> Some (Inr (g, s))
      | Inr (Some (noeud_ancetre, noeud)) \<Rightarrow>
          (case solve_bubble randbelow s g noeud_ancetre noeud of
             Inl e \<Rightarrow> Some (Inl e)
           | Inr (g', s') \<Rightarrow> simplify_bubbles depth pick randbelow s' g'))"

section \<open>Entry tips\<close>

text \<open>
  \<^verbatim>\<open>solve_entry_tips\<close>. For a node with more than one predecessor the inner
  loop runs over the pairs of the predecessors listed before the loop, on the graph
  as the earlier iterations left it. A common ancestor that is \<^verbatim>\<open>None\<close> or the
  empty string fails the test \<^verbatim>\<open>if common_ancestor\<close>. The weight handed to the
  selector for a path is the sum of the weights of \<^verbatim>\<open>graph.subgraph(path)\<close>.
\<close>

definition subgraph_weight_sum :: "graph \<Rightarrow> node list \<Rightarrow> real" where
  "subgraph_weight_sum g path = real_of_int (sum_list (map snd (subgraph_edges g path)))"

fun entry_tip_pairs ::
  "(node list \<Rightarrow> nat) \<Rightarrow> ('r \<Rightarrow> nat \<Rightarrow> nat \<times> 'r) \<Rightarrow> 'r \<Rightarrow> graph \<Rightarrow> node \<Rightarrow>
     (node \<times> node) list \<Rightarrow> error + (graph \<times> 'r)" where
  "entry_tip_pairs pick randbelow s g node [] = Inr (g, s)"
| "entry_tip_pairs pick randbelow s g node (pq # rest) =
     (case lowest_common_ancestor pick g (fst pq) (snd pq) of
        Inl e \<Rightarrow> Inl e
      | Inr None \<Rightarrow> entry_tip_pairs pick randbelow s g node rest
      | Inr (Some common_ancestor) \<Rightarrow>
          if common_ancestor = [] then entry_tip_pairs pick randbelow s g node rest
          else (case all_simple_paths g common_ancestor node of
                  Inl e \<Rightarrow> Inl e
                | Inr paths \<Rightarrow>
                    if 1 < length paths
                    then (case select_best_path randbelow s g paths
                                 (map (\<lambda>path. int (length path)) paths)
                                 (map (subgraph_weight_sum g) paths) True False of
                            Inl e \<Rightarrow> Inl e
                          | Inr (g', s') \<Rightarrow> entry_tip_pairs pick randbelow s' g' node rest)
                    else entry_tip_pairs pick randbelow s g node rest))"

fun solve_entry_tips ::
  "(node list \<Rightarrow> nat) \<Rightarrow> ('r \<Rightarrow> nat \<Rightarrow> nat \<times> 'r) \<Rightarrow> 'r \<Rightarrow> graph \<Rightarrow> node list \<Rightarrow>
     error + (graph \<times> 'r)" where
  "solve_entry_tips pick randbelow s g [] = Inr (g, s)"
| "solve_entry_tips pick randbelow s g (node # starting_nodes) =
     (case predecessors g node of
        Inl e \<Rightarrow> Inl e
      | Inr preds \<Rightarrow>
          if 1 < length preds
          then (case entry_tip_pairs pick randbelow s g node (combinations2 preds) of
                  Inl e \<Rightarrow> Inl e
                | Inr (g', s') \<Rightarrow> solve_entry_tips pick randbelow s' g' starting_nodes)
          else solve_entry_tips pick randbelow s g starting_nodes)"

section \<open>What a selection removes\<close>

text \<open>
  The nodes of a path that a removal may delete: every node of the path except the
  one at the first position unless the entry node is to be deleted, and except the
  one at the last position unless the sink node is to be deleted. For a path of two
  or more nodes these are its interior nodes, its first node when
  \<open>delete_entry_node\<close> holds and its last node when \<open>delete_sink_node\<close> holds.
\<close>

definition deletable_nodes :: "bool \<Rightarrow> bool \<Rightarrow> node list \<Rightarrow> node set" where
  "deletable_nodes delete_entry_node delete_sink_node path =
     {path ! i | i. i < length path \<and> (delete_entry_node \<or> 0 < i) \<and>
                    (delete_sink_node \<or> i + 1 < length path)}"

text \<open>The deletable nodes of all paths but the one at index \<open>best\<close>.\<close>

definition losers_nodes :: "bool \<Rightarrow> bool \<Rightarrow> node list list \<Rightarrow> int \<Rightarrow> node set" where
  "losers_nodes delete_entry_node delete_sink_node path_list best =
     (\<Union>j \<in> {j. j < length path_list \<and> int j \<noteq> best}.
        deletable_nodes delete_entry_node delete_sink_node (path_list ! j))"

text \<open>The graph without the nodes of \<open>R\<close> and without the edges at such a node.\<close>

definition without_nodes :: "graph \<Rightarrow> node set \<Rightarrow> graph" where
  "without_nodes g R =
     \<lparr>nodes = filter (\<lambda>n. n \<notin> R) (nodes g),
      edges = filter (\<lambda>e. fst (fst e) \<notin> R \<inter> set (nodes g) \<and>
                          snd (fst e) \<notin> R \<inter> set (nodes g)) (edges g)\<rparr>"

section \<open>Linear chains\<close>

text \<open>
  A graph without branching: no node has more than one predecessor or more than one
  successor, and there is exactly one entry node and exactly one exit node.
\<close>

definition linear_chain :: "graph \<Rightarrow> bool" where
  "linear_chain g \<longleftrightarrow>
     list_all (\<lambda>n. length (pred_of g n) \<le> 1 \<and> length (succ_of g n) \<le> 1) (nodes g) \<and>
     length (get_starting_nodes g) = 1 \<and> length (get_sink_nodes g) = 1"

text \<open>
  Auxiliary notions for the round trip. \<open>window_at s n i\<close> is the substring of
  length \<open>n\<close> of \<open>s\<close> at position \<open>i\<close>. \<open>walk_graph g W m\<close> says that the
  nodes of \<open>g\<close> are \<open>W 0, \<dots>, W m\<close> and its edges the steps from \<open>W i\<close> to
  \<open>W (i + 1)\<close>, as for the graph of a string with its substrings of length
  \<open>k - 1\<close>. \<open>counter_ok\<close> is the invariant of a counter: distinct keys, positive
  counts.
\<close>

definition window_at :: "string \<Rightarrow> nat \<Rightarrow> nat \<Rightarrow> string" where
  "window_at s n i = take n (drop i s)"

definition walk_graph :: "graph \<Rightarrow> (nat \<Rightarrow> node) \<Rightarrow> nat \<Rightarrow> bool" where
  "walk_graph g W m \<longleftrightarrow>
     set (nodes g) = W ` {..m} \<and>
     set (map fst (edges g)) = (\<lambda>i. (W i, W (Suc i))) ` {..<m}"

definition counter_ok :: "('k \<times> int) list \<Rightarrow> bool" where
  "counter_ok c \<longleftrightarrow> distinct (map fst c) \<and> (\<forall>p \<in> set c. 0 < snd p)"

section \<open>Concrete graphs\<close>

text \<open>
  The graph of the k-mers \<open>ACC\<close> (5 times), \<open>CCG\<close> (5 times) and \<open>ACG\<close> (once):
  a path \<open>AC \<rightarrow> CC \<rightarrow> CG\<close> and the direct edge \<open>AC \<rightarrow> CG\<close>.
\<close>

definition bubble_triangle :: graph where
  "bubble_triangle =
     \<lparr>nodes = [''AC'', ''CC'', ''CG''],
      edges = [((''AC'', ''CC''), 5), ((''CC'', ''CG''), 5), ((''AC'', ''CG''), 1)]\<rparr>"

text \<open>
  A main path \<open>AC \<rightarrow> CG \<rightarrow> GT\<close> of weight 10 and an entry tip
  \<open>TT \<rightarrow> TC\<close> of weight 1 that joins it at \<open>CG\<close>.
\<close>

definition entry_tip_graph :: graph where
  "entry_tip_graph =
     \<lparr>nodes = [''AC'', ''CG'', ''GT'', ''TT'', ''TC''],
      edges = [((''AC'', ''CG''), 10), ((''CG'', ''GT''), 10),
               ((''TT'', ''TC''), 1), ((''TC'', ''CG''), 1)]\<rparr>"

text \<open>
  Two paths from \<open>A\<close> to \<open>T\<close> that share the node \<open>C\<close>: \<open>A, C, T\<close> and
  \<open>A, C, G, T\<close> (the graph of the 2-mers \<open>AC\<close>, \<open>CT\<close>, \<open>CG\<close>, \<open>GT\<close>), once
  with the edge \<open>C \<rightarrow> T\<close> lighter than the others and once with equal weights.
\<close>

definition shared_bubble :: graph where
  "shared_bubble =
     \<lparr>nodes = [''A'', ''C'', ''T'', ''G''],
      edges = [((''A'', ''C''), 5), ((''C'', ''T''), 1), ((''C'', ''G''), 5), ((''G'', ''T''), 5)]\<rparr>"

definition level_bubble :: graph where
  "level_bubble =
     \<lparr>nodes = [''A'', ''C'', ''T'', ''G''],
      edges = [((''A'', ''C''), 3), ((''C'', ''T''), 3), ((''C'', ''G''), 3), ((''G'', ''T''), 3)]\<rparr>"

text \<open>Two paths \<open>A, C, T\<close> and \<open>A, G, T\<close> of the same length and weight.\<close>

definition tie_bubble :: graph where
  "tie_bubble =
     \<lparr>nodes = [''A'', ''C'', ''T'', ''G''],
      edges = [((''A'', ''C''), 3), ((''C'', ''T''), 3), ((''A'', ''G''), 3), ((''G'', ''T''), 3)]\<rparr>"

text \<open>
  Two random sources for concrete runs: one without state that always draws 0, and
  one whose state is a counter and whose draw is the counter.
\<close>

definition zero_source :: "unit \<Rightarrow> nat \<Rightarrow> nat \<times> unit" where
  "zero_source s n = (0, s)"

definition counting_source :: "nat \<Rightarrow> nat \<Rightarrow> nat \<times> nat" where
  "counting_source s n = (s, Suc s)"

section \<open>Evaluating the selector\<close>

text \<open>
  A square root is positive exactly when its argument is, so the two tests of
  \<^verbatim>\<open>select_best_path\<close> can be decided on the variances.
\<close>

lemma stdev_cases:
  "stdev xs = (case variance xs of Inl e \<Rightarrow> Inl e | Inr v \<Rightarrow> Inr (sqrt v))"
  by (simp add: stdev_def)

lemma best_path_index_code [code]:
  "best_path_index randbelow s path_list path_length weight_avg_list =
     (case variance weight_avg_list of
        Inl e \<Rightarrow> Inl e
      | Inr weight_var \<Rightarrow>
          if 0 < weight_var
          then (case first_max_index weight_avg_list of
                  Inl e \<Rightarrow> Inl e | Inr i \<Rightarrow> Inr (int i, s))
          else (case variance (map real_of_int path_length) of
                  Inl e \<Rightarrow> Inl e
                | Inr length_var \<Rightarrow>
                    if 0 < length_var
                    then (case first_max_index path_length of
                            Inl e \<Rightarrow> Inl e | Inr i \<Rightarrow> Inr (int i, s))
                    else randint randbelow s 0 (int (length path_list) - 1)))"
  by (simp add: best_path_index_def stdev_def split: sum.splits)

section \<open>Properties of the k-mer counter\<close>

lemma kmer_loop_Cons_Some:
  "\<exists>c. kmer_loop (read # reads) k kc = Some c"
  by (induction reads arbitrary: read kc) simp_all

text \<open>
  Claim C10. On the empty sequence of reads \<^verbatim>\<open>build_kmer_dict\<close> raises
  \<^verbatim>\<open>UnboundLocalError\<close> (the variable \<^verbatim>\<open>kmer_count\<close> is read after a loop
  that never assigned it); on every sequence with at least one read it returns a
  mapping, whatever the k-mer size.
\<close>

theorem build_kmer_dict_unbound_iff_no_reads:
  "build_kmer_dict [] k = Inl UnboundLocalError \<and>
   (reads \<noteq> [] \<longrightarrow> (\<exists>d. build_kmer_dict reads k = Inr d))"
proof
  show "build_kmer_dict [] k = Inl UnboundLocalError"
    by (simp add: build_kmer_dict_def)
next
  show "reads \<noteq> [] \<longrightarrow> (\<exists>d. build_kmer_dict reads k = Inr d)"
  proof
    assume "reads \<noteq> []"
    then obtain r rs where "reads = r # rs" by (cases reads) auto
    moreover obtain c where "kmer_loop (r # rs) k None = Some c"
      using kmer_loop_Cons_Some by blast
    ultimately show "\<exists>d. build_kmer_dict reads k = Inr d"
      by (simp add: build_kmer_dict_def)
  qed
qed

theorem build_kmer_dict_unbound_iff_no_reads_witness:
  "build_kmer_dict [] 4 = Inl UnboundLocalError \<and>
   [''ACGT''] \<noteq> [] \<and> build_kmer_dict [''ACGT''] 4 = Inr [(''ACGT'', 1)]"
proof -
  have "build_kmer_dict [''ACGT''] 4 = Inr [(''ACGT'', 1)]"
    by code_simp
  then show ?thesis
    using build_kmer_dict_unbound_iff_no_reads [of 4 "[''ACGT'']"] by simp
qed

text \<open>
  Claim C1. The total count of the returned mapping is meant to be the number of
  windows of all reads. On the two reads of the specification's end-to-end scenario
  (\<open>k = 4\<close>, ten windows) the function returns the five k-mers of the second read
  only, each counted once: the first read's windows are lost.
\<close>

theorem build_kmer_dict_keeps_last_read_only:
  "build_kmer_dict [''AACCGGTT'', ''ACCGGTTA''] 4 =
     Inr [(''ACCG'', 1), (''CCGG'', 1), (''CGGT'', 1), (''GGTT'', 1), (''GTTA'', 1)] \<and>
   total_count [(''ACCG'', 1), (''CCGG'', 1), (''CGGT'', 1), (''GGTT'', 1), (''GTTA'', 1 :: int)] = 5 \<and>
   windows ''AACCGGTT'' 4 + windows ''ACCGGTTA'' 4 = 10"
proof -
  have "build_kmer_dict [''AACCGGTT'', ''ACCGGTTA''] 4 =
     Inr [(''ACCG'', 1), (''CCGG'', 1), (''CGGT'', 1), (''GGTT'', 1), (''GTTA'', 1)]"
    by code_simp
  then show ?thesis
    by (simp add: total_count_def windows_def)
qed

section \<open>The degenerate pipeline\<close>

lemma cut_kmer_short: "int (length read) < k \<Longrightarrow> cut_kmer read k = []"
  by (simp add: cut_kmer_def py_range_def)

lemma build_kmer_dict_short: "int (length read) < k \<Longrightarrow> build_kmer_dict [read] k = Inr []"
  by (simp add: build_kmer_dict_def cut_kmer_short Counter_def counter_iadd_def keep_positive_def)

lemma get_contigs_no_starts: "get_contigs g [] ending_nodes = Inr []"
  by (simp add: get_contigs_def)

text \<open>
  Claim C9. A single read strictly shorter than \<open>k\<close> goes through the pipeline
  without an exception: the k-mer mapping is empty, the graph built from it has no
  node and no edge, and the contigs extracted between its entry and exit nodes are
  the empty list.
\<close>

theorem short_read_pipeline_empty:
  assumes "int (length read) < k"
  shows "build_kmer_dict [read] k = Inr [] \<and>
         build_graph [] = \<lparr>nodes = [], edges = []\<rparr> \<and>
         get_contigs (build_graph []) (get_starting_nodes (build_graph []))
           (get_sink_nodes (build_graph [])) = Inr []"
  using assms
  by (simp add: build_kmer_dict_short build_graph_def empty_graph_def
      get_starting_nodes_def get_contigs_no_starts)

theorem short_read_pipeline_empty_witness:
  "int (length ''ACG'') < 4 \<and>
   build_kmer_dict [''ACG''] 4 = Inr [] \<and>
   build_graph [] = \<lparr>nodes = [], edges = []\<rparr> \<and>
   get_contigs (build_graph []) (get_starting_nodes (build_graph []))
     (get_sink_nodes (build_graph [])) = Inr []"
proof -
  have short: "int (length ''ACG'') < 4" by simp
  show ?thesis
    using short short_read_pipeline_empty [OF short] by blast
qed

section \<open>The path scorer on a path with a chord\<close>

lemma bubble_triangle_built:
  "build_graph [(''ACC'', 5), (''CCG'', 5), (''ACG'', 1)] = bubble_triangle"
  by code_simp

lemma triangle_long_path_mean:
  "path_mean_weight bubble_triangle [''AC'', ''CC'', ''CG''] = Inr 5"
  by (simp add: path_mean_weight_def path_edge_weights_def edge_weight_def bubble_triangle_def)

lemma triangle_short_path_mean:
  "path_mean_weight bubble_triangle [''AC'', ''CG''] = Inr 1"
  by (simp add: path_mean_weight_def path_edge_weights_def edge_weight_def bubble_triangle_def)

text \<open>
  Claim C5. The average weight of a path is meant to be the mean over its
  consecutive edges. On \<open>bubble_triangle\<close> the path \<open>AC, CC, CG\<close> has the two
  edges \<open>AC \<rightarrow> CC\<close> and \<open>CC \<rightarrow> CG\<close>, both of weight 5, which is the mean that
  \<^verbatim>\<open>solve_bubble\<close> computes for it; \<^verbatim>\<open>path_average_weight\<close> also counts the
  chord \<open>AC \<rightarrow> CG\<close> of weight 1 and returns 11/3.
\<close>

theorem path_average_weight_counts_chord:
  "path_edge_weights bubble_triangle [''AC'', ''CC'', ''CG''] = Inr [5, 5] \<and>
   path_mean_weight bubble_triangle [''AC'', ''CC'', ''CG''] = Inr 5 \<and>
   path_average_weight bubble_triangle [''AC'', ''CC'', ''CG''] = Inr (11 / 3)"
proof -
  have "path_edge_weights bubble_triangle [''AC'', ''CC'', ''CG''] = Inr [5, 5]"
    by (simp add: path_edge_weights_def edge_weight_def bubble_triangle_def)
  moreover have "path_average_weight bubble_triangle [''AC'', ''CC'', ''CG''] = Inr (11 / 3)"
    by (simp add: path_average_weight_def mean_def subgraph_edges_def bubble_triangle_def)
  ultimately show ?thesis
    using triangle_long_path_mean by simp
qed

section \<open>A bubble that is never resolved\<close>

lemma triangle_paths:
  "all_simple_paths bubble_triangle ''AC'' ''CG'' =
     Inr [[''AC'', ''CC'', ''CG''], [''AC'', ''CG'']]"
  by code_simp

lemma triangle_lca:
  "lowest_common_ancestor pick bubble_triangle ''CC'' ''AC'' = Inr (Some ''AC'')"
proof -
  have ns: "nodes bubble_triangle = [''AC'', ''CC'', ''CG'']"
    by (simp add: bubble_triangle_def)
  have dag: "is_directed_acyclic_graph bubble_triangle"
    by code_simp
  have anc: "ancestors_from bubble_triangle [''CC''] = [''CC'', ''AC'']"
    "ancestors_from bubble_triangle [''AC''] = [''AC'']"
    by code_simp+
  have sucs: "succ_of bubble_triangle ''AC'' = [''CC'', ''CG'']"
    by code_simp
  show ?thesis
    unfolding lowest_common_ancestor_def
    by (simp add: dag anc ns sucs numeral_3_eq_3)
qed

lemma triangle_find_bubble:
  "find_bubble pick bubble_triangle (nodes bubble_triangle) = Inr (Some (''AC'', ''CG''))"
proof -
  have ns: "nodes bubble_triangle = [''AC'', ''CC'', ''CG'']"
    by (simp add: bubble_triangle_def)
  have preds: "pred_of bubble_triangle ''AC'' = []"
    "pred_of bubble_triangle ''CC'' = [''AC'']"
    "pred_of bubble_triangle ''CG'' = [''CC'', ''AC'']"
    by code_simp+
  show ?thesis
    by (simp add: ns preds triangle_lca)
qed

lemma triangle_solve_bubble:
  "solve_bubble randbelow s bubble_triangle ''AC'' ''CG'' = Inr (bubble_triangle, s)"
  by (simp add: solve_bubble_def triangle_paths triangle_long_path_mean
      triangle_short_path_mean select_best_path_def best_path_index_code variance_def
      first_max_index_def py_max_def paths_to_remove_def enumerate_eq_zip
      remove_paths_def trim_path_def remove_nodes_from_def)

text \<open>
  Claim C3. Every round that detects a bubble is meant to remove a node, so that
  the rounds end. On \<open>bubble_triangle\<close> the round detects the bubble between
  \<open>AC\<close> and \<open>CG\<close>; the two paths have mean weights 5 and 1, the direct edge
  \<open>AC \<rightarrow> CG\<close> loses, it has no interior node, and \<^verbatim>\<open>solve_bubble\<close> returns the
  graph as it was. The next round is the same round: whatever depth of recursion is
  allowed, \<^verbatim>\<open>simplify_bubbles\<close> does not return within it.
\<close>

theorem simplify_bubbles_triangle_never_returns:
  "find_bubble pick bubble_triangle (nodes bubble_triangle) = Inr (Some (''AC'', ''CG'')) \<and>
   solve_bubble randbelow s bubble_triangle ''AC'' ''CG'' = Inr (bubble_triangle, s) \<and>
   simplify_bubbles depth pick randbelow s bubble_triangle = None"
proof -
  have "simplify_bubbles depth pick randbelow s bubble_triangle = None"
    by (induction depth) (simp_all add: triangle_find_bubble triangle_solve_bubble)
  then show ?thesis
    by (simp add: triangle_find_bubble triangle_solve_bubble)
qed

section \<open>Entry tips are never removed\<close>

lemma solve_entry_tips_no_predecessors:
  "set starting_nodes \<subseteq> set (get_starting_nodes g) \<Longrightarrow>
   solve_entry_tips pick randbelow s g starting_nodes = Inr (g, s)"
  by (induction starting_nodes) (auto simp: get_starting_nodes_def predecessors_def)

text \<open>
  Claim C4. The entry tip \<open>TT \<rightarrow> TC\<close> of \<open>entry_tip_graph\<close> is meant to be
  removed. The entry nodes of the graph are \<open>AC\<close> and \<open>TT\<close>; an entry node has no
  predecessor, the test \<^verbatim>\<open>len(predecessors) > 1\<close> fails for each of them, and
  \<^verbatim>\<open>solve_entry_tips\<close> returns the graph with the tip still in it.
\<close>

theorem solve_entry_tips_keeps_tip:
  "get_starting_nodes entry_tip_graph = [''AC'', ''TT''] \<and>
   solve_entry_tips pick randbelow s entry_tip_graph (get_starting_nodes entry_tip_graph) =
     Inr (entry_tip_graph, s) \<and>
   ''TT'' \<in> set (nodes entry_tip_graph) \<and> ''TC'' \<in> set (nodes entry_tip_graph)"
proof -
  have "get_starting_nodes entry_tip_graph = [''AC'', ''TT'']"
    by code_simp
  moreover have "solve_entry_tips pick randbelow s entry_tip_graph
      (get_starting_nodes entry_tip_graph) = Inr (entry_tip_graph, s)"
    by (rule solve_entry_tips_no_predecessors) simp
  ultimately show ?thesis
    by (simp add: entry_tip_graph_def)
qed

section \<open>The graph after a selection\<close>

lemma remove_node_without: "remove_node g n = without_nodes g {n}"
proof (cases "n \<in> set (nodes g)")
  case True
  then show ?thesis
    by (auto simp: remove_node_def without_nodes_def intro!: filter_cong[OF refl])
next
  case False
  then have "filter (\<lambda>m. m \<notin> {n}) (nodes g) = nodes g"
    by (auto simp: filter_id_conv)
  with False show ?thesis
    by (cases g) (simp add: remove_node_def without_nodes_def)
qed

lemma without_without: "without_nodes (without_nodes g A) B = without_nodes g (A \<union> B)"
  by (auto simp: without_nodes_def intro!: filter_cong[OF refl])

lemma remove_nodes_from_without: "remove_nodes_from g ns = without_nodes g (set ns)"
proof (induction ns arbitrary: g)
  case Nil
  show ?case by (cases g) (simp add: remove_nodes_from_def without_nodes_def)
next
  case (Cons n ns)
  have "remove_nodes_from g (n # ns) = remove_nodes_from (remove_node g n) ns"
    by (simp add: remove_nodes_from_def)
  also have "\<dots> = without_nodes (without_nodes g {n}) (set ns)"
    by (simp add: Cons.IH remove_node_without)
  finally show ?case by (simp add: without_without)
qed

lemma remove_paths_without:
  "remove_paths g ps de ds = without_nodes g (\<Union>p \<in> set ps. set (trim_path de ds p))"
proof (induction ps arbitrary: g)
  case Nil
  show ?case by (cases g) (simp add: remove_paths_def without_nodes_def)
next
  case (Cons p ps)
  have "remove_paths g (p # ps) de ds = remove_paths (remove_nodes_from g (trim_path de ds p)) ps de ds"
    by (simp add: remove_paths_def)
  then show ?case
    by (simp add: Cons.IH remove_nodes_from_without without_without)
qed

lemma set_take_drop:
  "set (take m (drop n xs)) = {xs ! i | i. n \<le> i \<and> i < n + m \<and> i < length xs}"
proof (rule set_eqI, rule iffI)
  fix x
  assume "x \<in> set (take m (drop n xs))"
  then obtain j where j: "j < length (take m (drop n xs))" "take m (drop n xs) ! j = x"
    by (auto simp: in_set_conv_nth)
  then have "x = xs ! (n + j)" "n \<le> n + j" "n + j < n + m" "n + j < length xs"
    by auto
  then show "x \<in> {xs ! i | i. n \<le> i \<and> i < n + m \<and> i < length xs}"
    by blast
next
  fix x
  assume "x \<in> {xs ! i | i. n \<le> i \<and> i < n + m \<and> i < length xs}"
  then obtain i where i: "x = xs ! i" "n \<le> i" "i < n + m" "i < length xs"
    by blast
  then have "i - n < length (take m (drop n xs))" "take m (drop n xs) ! (i - n) = x"
    by auto
  then show "x \<in> set (take m (drop n xs))"
    by (metis nth_mem)
qed

lemma trim_path_take_drop:
  "trim_path de ds path =
     take (length path - (if de then 0 else 1) - (if ds then 0 else 1))
       (drop (if de then 0 else 1) path)"
  by (simp add: trim_path_def butlast_conv_take)

lemma set_trim_path: "set (trim_path de ds path) = deletable_nodes de ds path"
proof -
  have "((if de then 0 else 1) \<le> i \<and>
         i < (if de then 0 else 1) +
             (length path - (if de then 0 else 1) - (if ds then 0 else 1)) \<and>
         i < length path) =
        (i < length path \<and> (de \<or> 0 < i) \<and> (ds \<or> i + 1 < length path))" for i
    by (cases de; cases ds) auto
  then show ?thesis
    unfolding trim_path_take_drop set_take_drop deletable_nodes_def by simp
qed

lemma set_paths_to_remove:
  "set (paths_to_remove best ps) = {ps ! j | j. j < length ps \<and> int j \<noteq> best}"
  by (force simp: paths_to_remove_def enumerate_eq_zip set_zip image_iff)

lemma removed_by_selection:
  "(\<Union>p \<in> set (paths_to_remove best ps). set (trim_path de ds p)) = losers_nodes de ds ps best"
  by (auto simp: set_paths_to_remove set_trim_path losers_nodes_def)


lemma py_max_Max: "xs \<noteq> [] \<Longrightarrow> py_max xs = Inr (Max (set xs))"
proof (cases xs)
  case Nil
  then show "xs \<noteq> [] \<Longrightarrow> ?thesis" by simp
next
  case (Cons x rest)
  have "foldl max x rest = fold max rest x"
    by (simp add: foldl_conv_fold max.commute)
  also have "\<dots> = Max (set (x # rest))"
    by (rule Max.set_eq_fold[symmetric])
  finally show ?thesis
    by (simp add: py_max_def Cons)
qed

lemma py_index_first:
  "x \<in> set xs \<Longrightarrow> \<exists>i. py_index xs x = Inr i \<and> i < length xs \<and> xs ! i = x \<and> (\<forall>j<i. xs ! j \<noteq> x)"
proof (induction xs)
  case Nil
  then show ?case by simp
next
  case (Cons y ys)
  show ?case
  proof (cases "y = x")
    case True
    then show ?thesis by simp
  next
    case False
    with Cons obtain i where i: "py_index ys x = Inr i" "i < length ys" "ys ! i = x" "\<forall>j<i. ys ! j \<noteq> x"
      by auto
    have "\<forall>j<Suc i. (y # ys) ! j \<noteq> x"
      using False i(4) by (auto simp: nth_Cons split: nat.splits)
    with False i show ?thesis by simp
  qed
qed

lemma first_max_index_spec:
  assumes "xs \<noteq> []"
  shows "\<exists>i. first_max_index xs = Inr i \<and> i < length xs \<and>
             (\<forall>j<length xs. xs ! j \<le> xs ! i) \<and> (\<forall>j<i. xs ! j < xs ! i)"
proof -
  let ?m = "Max (set xs)"
  have m_in: "?m \<in> set xs" using assms by (simp add: Max_in)
  from py_index_first[OF m_in] obtain i where
    i: "py_index xs ?m = Inr i" "i < length xs" "xs ! i = ?m" "\<forall>j<i. xs ! j \<noteq> ?m"
    by blast
  have le: "xs ! j \<le> ?m" if "j < length xs" for j
    using that by simp
  have "xs ! j < xs ! i" if "j < i" for j
  proof -
    have "xs ! j \<le> ?m" using that i(2) le by simp
    moreover have "xs ! j \<noteq> ?m" using that i(4) by simp
    ultimately show ?thesis using i(3) by simp
  qed
  with i le show ?thesis
    by (auto simp: first_max_index_def py_max_Max[OF assms])
qed

lemma select_best_path_result:
  "length path_list \<noteq> 1 \<Longrightarrow>
   best_path_index randbelow s path_list path_length weight_avg_list = Inr (best, s') \<Longrightarrow>
   select_best_path randbelow s g path_list path_length weight_avg_list de ds =
     Inr (without_nodes g (losers_nodes de ds path_list best), s')"
  by (simp add: select_best_path_def remove_paths_without removed_by_selection)

lemma randint_range:
  "randint randbelow s 0 (int n - 1) = Inr (i, s') \<Longrightarrow> 0 \<le> i \<and> i < int n"
  by (auto simp: randint_def Let_def split: if_splits)

lemma first_max_index_less: "first_max_index xs = Inr i \<Longrightarrow> i < length xs"
  using first_max_index_spec[of xs]
  by (cases "xs = []") (auto simp: first_max_index_def py_max_def)

lemma best_path_index_range:
  assumes "best_path_index randbelow s path_list path_length weight_avg_list = Inr (best, s')"
    and "length weight_avg_list = length path_list" "length path_length = length path_list"
  shows "0 \<le> best \<and> best < int (length path_list)"
  using assms
  by (auto simp: best_path_index_def split: sum.splits if_splits
      dest: first_max_index_less randint_range)

text \<open>
  Claim C2, as amended. Given at least two paths with as many average weights,
  whose standard deviation is positive, the winner is the first index \<open>w\<close> of the
  greatest average weight, and \<^verbatim>\<open>select_best_path\<close> returns the graph without
  exactly the deletable nodes of the other paths (their interior nodes, their first
  node when \<open>delete_entry_node\<close> holds, their last node when \<open>delete_sink_node\<close>
  holds), leaving the random source as it was. A node of the winning path stays in
  the graph unless it is a deletable node of another path.
\<close>

theorem select_best_path_by_weight:
  assumes "2 \<le> length path_list"
    and "length weight_avg_list = length path_list"
    and "stdev weight_avg_list = Inr sd" and "0 < sd"
  shows "\<exists>w. w < length path_list \<and>
           (\<forall>j<length path_list. weight_avg_list ! j \<le> weight_avg_list ! w) \<and>
           (\<forall>j<w. weight_avg_list ! j < weight_avg_list ! w) \<and>
           select_best_path randbelow s g path_list path_length weight_avg_list de ds =
             Inr (without_nodes g (losers_nodes de ds path_list (int w)), s) \<and>
           set (path_list ! w) \<inter> set (nodes g) - losers_nodes de ds path_list (int w)
             \<subseteq> set (nodes (without_nodes g (losers_nodes de ds path_list (int w))))"
proof -
  have "weight_avg_list \<noteq> []" using assms(1,2) by auto
  from first_max_index_spec[OF this] obtain w where
    w: "first_max_index weight_avg_list = Inr w" "w < length weight_avg_list"
       "\<forall>j<length weight_avg_list. weight_avg_list ! j \<le> weight_avg_list ! w"
       "\<forall>j<w. weight_avg_list ! j < weight_avg_list ! w"
    by blast
  have "best_path_index randbelow s path_list path_length weight_avg_list = Inr (int w, s)"
    using assms(3,4) w(1) by (simp add: best_path_index_def)
  moreover have "length path_list \<noteq> 1" using assms(1) by simp
  ultimately have "select_best_path randbelow s g path_list path_length weight_avg_list de ds =
      Inr (without_nodes g (losers_nodes de ds path_list (int w)), s)"
    by (rule select_best_path_result[rotated])
  with w assms(2) show ?thesis
    by (auto simp: without_nodes_def)
qed


theorem select_best_path_by_weight_witness:
  "2 \<le> length [[''A'', ''C'', ''T''], [''A'', ''C'', ''G'', ''T'']] \<and>
   length [3, 5 :: real] = length [[''A'', ''C'', ''T''], [''A'', ''C'', ''G'', ''T'']] \<and>
   stdev [3, 5] = Inr (sqrt 2) \<and> 0 < sqrt 2 \<and>
   (\<exists>w. w < length [[''A'', ''C'', ''T''], [''A'', ''C'', ''G'', ''T'']] \<and>
        (\<forall>j<length [[''A'', ''C'', ''T''], [''A'', ''C'', ''G'', ''T'']].
            [3, 5 :: real] ! j \<le> [3, 5] ! w) \<and>
        (\<forall>j<w. [3, 5 :: real] ! j < [3, 5] ! w) \<and>
        select_best_path zero_source () shared_bubble
            [[''A'', ''C'', ''T''], [''A'', ''C'', ''G'', ''T'']] [3, 4] [3, 5] False False =
          Inr (without_nodes shared_bubble
                 (losers_nodes False False
                    [[''A'', ''C'', ''T''], [''A'', ''C'', ''G'', ''T'']] (int w)), ()) \<and>
        set ([[''A'', ''C'', ''T''], [''A'', ''C'', ''G'', ''T'']] ! w) \<inter> set (nodes shared_bubble)
          - losers_nodes False False [[''A'', ''C'', ''T''], [''A'', ''C'', ''G'', ''T'']] (int w)
          \<subseteq> set (nodes (without_nodes shared_bubble
                 (losers_nodes False False
                    [[''A'', ''C'', ''T''], [''A'', ''C'', ''G'', ''T'']] (int w)))))"
proof -
  have h1: "2 \<le> length [[''A'', ''C'', ''T''], [''A'', ''C'', ''G'', ''T'']]"
    by simp
  have h2: "length [3, 5 :: real] = length [[''A'', ''C'', ''T''], [''A'', ''C'', ''G'', ''T'']]"
    by simp
  have h3: "stdev [3, 5] = Inr (sqrt 2)"
    by (simp add: stdev_def variance_def)
  have h4: "0 < sqrt (2 :: real)"
    by simp
  show ?thesis
    using h1 h2 h3 h4
      select_best_path_by_weight [OF h1 h2 h3 h4, of zero_source "()" shared_bubble "[3, 4]" False False]
    by blast
qed

text \<open>
  Claim C2, as stated, fails where the winner shares an interior node with another
  path. In \<open>shared_bubble\<close> the paths \<open>A, C, T\<close> and \<open>A, C, G, T\<close> have the
  average weights 3 and 5; the second one wins, and removing the interior node \<open>C\<close>
  of the first one removes a node of the winner.
\<close>

theorem select_best_path_winner_loses_node:
  "select_best_path zero_source () shared_bubble
     [[''A'', ''C'', ''T''], [''A'', ''C'', ''G'', ''T'']] [3, 4] [3, 5] False False =
     Inr (\<lparr>nodes = [''A'', ''T'', ''G''], edges = [((''G'', ''T''), 5)]\<rparr>, ()) \<and>
   stdev [3, 5] = Inr (sqrt 2) \<and>
   ''C'' \<in> set [''A'', ''C'', ''G'', ''T''] \<and> ''C'' \<in> set (nodes shared_bubble) \<and>
   ''C'' \<notin> set [''A'', ''T'', ''G'']"
proof -
  have "select_best_path zero_source () shared_bubble
     [[''A'', ''C'', ''T''], [''A'', ''C'', ''G'', ''T'']] [3, 4] [3, 5] False False =
     Inr (\<lparr>nodes = [''A'', ''T'', ''G''], edges = [((''G'', ''T''), 5)]\<rparr>, ())"
    by code_simp
  moreover have "stdev [3, 5] = Inr (sqrt 2)"
    by (simp add: stdev_def variance_def)
  ultimately show ?thesis
    by (simp add: shared_bubble_def)
qed

text \<open>
  Claim C6, as amended. Given exactly one path, \<^verbatim>\<open>select_best_path\<close> returns
  the graph and the random source unchanged. Given another number of paths, an
  invocation that returns has removed the deletable nodes of every path but the one
  at some index \<open>best\<close>, all of them: none of these nodes is left. With three
  lists of the same length, \<open>best\<close> is the index of one of the paths. The graph
  keeps the nodes of that path except those that are deletable nodes of another
  path.
\<close>

theorem select_best_path_outcome:
  "(length path_list = 1 \<longrightarrow>
      select_best_path randbelow s g path_list path_length weight_avg_list de ds = Inr (g, s)) \<and>
   (length path_list \<noteq> 1 \<longrightarrow>
      (\<forall>g' s'.
         select_best_path randbelow s g path_list path_length weight_avg_list de ds = Inr (g', s') \<longrightarrow>
         (\<exists>best. g' = without_nodes g (losers_nodes de ds path_list best) \<and>
                 losers_nodes de ds path_list best \<inter> set (nodes g') = {} \<and>
                 (length weight_avg_list = length path_list \<and>
                  length path_length = length path_list \<longrightarrow>
                    0 \<le> best \<and> best < int (length path_list)))))"
proof (intro conjI impI allI)
  assume "length path_list = 1"
  then show "select_best_path randbelow s g path_list path_length weight_avg_list de ds = Inr (g, s)"
    by (simp add: select_best_path_def)
next
  fix g' s'
  assume many: "length path_list \<noteq> 1"
    and run: "select_best_path randbelow s g path_list path_length weight_avg_list de ds = Inr (g', s')"
  from many run obtain best where
    b: "best_path_index randbelow s path_list path_length weight_avg_list = Inr (best, s')"
    by (auto simp: select_best_path_def split: sum.splits)
  from select_best_path_result[OF many b, of g de ds] run
  have g': "g' = without_nodes g (losers_nodes de ds path_list best)" by simp
  moreover have "losers_nodes de ds path_list best \<inter> set (nodes g') = {}"
    unfolding g' by (auto simp: without_nodes_def)
  ultimately show "\<exists>best. g' = without_nodes g (losers_nodes de ds path_list best) \<and>
                 losers_nodes de ds path_list best \<inter> set (nodes g') = {} \<and>
                 (length weight_avg_list = length path_list \<and>
                  length path_length = length path_list \<longrightarrow>
                    0 \<le> best \<and> best < int (length path_list))"
    using best_path_index_range[OF b] by blast
qed

theorem select_best_path_outcome_witness:
  "length [[''A'', ''C'', ''T'']] = 1 \<and>
   select_best_path zero_source () tie_bubble [[''A'', ''C'', ''T'']] [3] [3] False False =
     Inr (tie_bubble, ()) \<and>
   length [[''A'', ''C'', ''T''], [''A'', ''G'', ''T'']] \<noteq> 1 \<and>
   select_best_path zero_source () tie_bubble
       [[''A'', ''C'', ''T''], [''A'', ''G'', ''T'']] [3, 3] [3, 3] False False =
     Inr (\<lparr>nodes = [''A'', ''C'', ''T''], edges = [((''A'', ''C''), 3), ((''C'', ''T''), 3)]\<rparr>, ()) \<and>
   (\<exists>best.
      \<lparr>nodes = [''A'', ''C'', ''T''], edges = [((''A'', ''C''), 3), ((''C'', ''T''), 3)]\<rparr> =
        without_nodes tie_bubble
          (losers_nodes False False [[''A'', ''C'', ''T''], [''A'', ''G'', ''T'']] best) \<and>
      losers_nodes False False [[''A'', ''C'', ''T''], [''A'', ''G'', ''T'']] best \<inter>
        set (nodes \<lparr>nodes = [''A'', ''C'', ''T''],
                    edges = [((''A'', ''C''), 3), ((''C'', ''T''), 3)]\<rparr>) = {} \<and>
      0 \<le> best \<and> best < int (length [[''A'', ''C'', ''T''], [''A'', ''G'', ''T'']]))"
proof -
  have one: "length [[''A'', ''C'', ''T'']] = 1"
    by simp
  have two: "length [[''A'', ''C'', ''T''], [''A'', ''G'', ''T'']] \<noteq> 1"
    by simp
  have run: "select_best_path zero_source () tie_bubble
       [[''A'', ''C'', ''T''], [''A'', ''G'', ''T'']] [3, 3] [3, 3] False False =
     Inr (\<lparr>nodes = [''A'', ''C'', ''T''], edges = [((''A'', ''C''), 3), ((''C'', ''T''), 3)]\<rparr>, ())"
    by code_simp
  have aligned: "length [3, 3 :: real] = length [[''A'', ''C'', ''T''], [''A'', ''G'', ''T'']] \<and>
      length [3, 3 :: int] = length [[''A'', ''C'', ''T''], [''A'', ''G'', ''T'']]"
    by simp
  have single: "select_best_path zero_source () tie_bubble [[''A'', ''C'', ''T'']] [3] [3] False False =
      Inr (tie_bubble, ())"
    using select_best_path_outcome [of "[[''A'', ''C'', ''T'']]" zero_source "()" tie_bubble
        "[3]" "[3]" False False] one
    by blast
  show ?thesis
    using one two run aligned single
      select_best_path_outcome [of "[[''A'', ''C'', ''T''], [''A'', ''G'', ''T'']]"
        zero_source "()" tie_bubble "[3, 3]" "[3, 3]" False False]
    by blast
qed

text \<open>
  Claim C6, as stated, fails on \<open>level_bubble\<close>: the weights tie, the longer path
  \<open>A, C, G, T\<close> wins, and the returned graph is neither the graph as it was nor a
  graph that holds every node of the winner, whose node \<open>C\<close> went with the loser.
\<close>

theorem select_best_path_half_deletes_winner:
  "first_max_index [3, 4 :: int] = Inr 1 \<and>
   select_best_path zero_source () level_bubble
       [[''A'', ''C'', ''T''], [''A'', ''C'', ''G'', ''T'']] [3, 4] [3, 3] False False =
     Inr (\<lparr>nodes = [''A'', ''T'', ''G''], edges = [((''G'', ''T''), 3)]\<rparr>, ()) \<and>
   \<lparr>nodes = [''A'', ''T'', ''G''], edges = [((''G'', ''T''), 3)]\<rparr> \<noteq> level_bubble \<and>
   ''C'' \<in> set ([[''A'', ''C'', ''T''], [''A'', ''C'', ''G'', ''T'']] ! 1) \<and>
   ''C'' \<notin> set (nodes \<lparr>nodes = [''A'', ''T'', ''G''], edges = [((''G'', ''T''), 3)]\<rparr>)"
proof -
  have "first_max_index [3, 4 :: int] = Inr 1"
    by (simp add: first_max_index_def py_max_def)
  moreover have "select_best_path zero_source () level_bubble
       [[''A'', ''C'', ''T''], [''A'', ''C'', ''G'', ''T'']] [3, 4] [3, 3] False False =
     Inr (\<lparr>nodes = [''A'', ''T'', ''G''], edges = [((''G'', ''T''), 3)]\<rparr>, ())"
    by code_simp
  ultimately show ?thesis
    by (simp add: level_bubble_def)
qed

text \<open>
  The tie branch. When the weights and the lengths both have standard deviation 0,
  the winning index is the number that the random source draws below the number of
  paths, from the state the call starts in. This is what the branch computes; it
  says nothing about how the library's generator distributes its draws, which the
  model leaves open (\<open>randbelow\<close> is a parameter), and that two runs from one
  state agree holds of every function of the model.
\<close>

lemma select_best_path_tie_draw:
  assumes "2 \<le> length path_list"
    and "stdev weight_avg_list = Inr 0"
    and "stdev (map real_of_int path_length) = Inr 0"
  shows "best_path_index randbelow s path_list path_length weight_avg_list =
           Inr (int (fst (randbelow s (length path_list)) mod length path_list),
                snd (randbelow s (length path_list))) \<and>
         fst (randbelow s (length path_list)) mod length path_list < length path_list \<and>
         select_best_path randbelow s g path_list path_length weight_avg_list de ds =
           Inr (remove_paths g
                  (paths_to_remove (int (fst (randbelow s (length path_list)) mod length path_list))
                     path_list) de ds,
                snd (randbelow s (length path_list)))"
proof -
  have ne: "path_list \<noteq> []" using assms(1) by auto
  have "best_path_index randbelow s path_list path_length weight_avg_list =
           Inr (int (fst (randbelow s (length path_list)) mod length path_list),
                snd (randbelow s (length path_list)))"
    using assms ne by (simp add: best_path_index_def randint_def Let_def)
  moreover have "length path_list \<noteq> 1" using assms(1) by simp
  ultimately show ?thesis
    using ne by (simp add: select_best_path_def)
qed

lemma select_best_path_tie_draw_example:
  "2 \<le> length [[''A'', ''C'', ''T''], [''A'', ''G'', ''T'']] \<and>
   stdev [3, 3] = Inr 0 \<and>
   stdev (map real_of_int [3, 3]) = Inr 0 \<and>
   best_path_index counting_source 1 [[''A'', ''C'', ''T''], [''A'', ''G'', ''T'']] [3, 3] [3, 3] =
     Inr (1, 2) \<and>
   select_best_path counting_source 1 tie_bubble
       [[''A'', ''C'', ''T''], [''A'', ''G'', ''T'']] [3, 3] [3, 3] False False =
     Inr (remove_paths tie_bubble
            (paths_to_remove 1 [[''A'', ''C'', ''T''], [''A'', ''G'', ''T'']]) False False, 2)"
proof -
  have h1: "2 \<le> length [[''A'', ''C'', ''T''], [''A'', ''G'', ''T'']]"
    by simp
  have h2: "stdev [3, 3] = Inr 0"
    by (simp add: stdev_def variance_def)
  have h3: "stdev (map real_of_int [3, 3]) = Inr 0"
    by (simp add: stdev_def variance_def)
  show ?thesis
    using h1 h2 h3
      select_best_path_tie_draw [OF h1 h2 h3, of counting_source 1 tie_bubble False False]
    by (simp add: counting_source_def)
qed

section \<open>Round trip through build and extract\<close>

lemma in_pred_of: "u \<in> set (pred_of g v) \<longleftrightarrow> (u, v) \<in> set (map fst (edges g))"
  by (force simp: pred_of_def)

lemma in_succ_of: "v \<in> set (succ_of g u) \<longleftrightarrow> (u, v) \<in> set (map fst (edges g))"
  by (force simp: succ_of_def)

lemma short_list_eq: "length xs \<le> 1 \<Longrightarrow> x \<in> set xs \<Longrightarrow> xs = [x]"
  by (cases xs) auto

lemma short_list_same: "length xs \<le> 1 \<Longrightarrow> x \<in> set xs \<Longrightarrow> y \<in> set xs \<Longrightarrow> x = y"
  by (cases xs) auto

lemma walk_pred:
  assumes "walk_graph g W m" "i < m"
  shows "W i \<in> set (pred_of g (W (Suc i)))"
  using assms by (auto simp: in_pred_of walk_graph_def simp del: set_map)

lemma walk_succ:
  assumes "walk_graph g W m" "i < m"
  shows "W (Suc i) \<in> set (succ_of g (W i))"
  using assms by (auto simp: in_succ_of walk_graph_def simp del: set_map)

lemma walk_node: "walk_graph g W m \<Longrightarrow> i \<le> m \<Longrightarrow> W i \<in> set (nodes g)"
  by (auto simp: walk_graph_def)

lemma chain_degrees:
  assumes "linear_chain g" "n \<in> set (nodes g)"
  shows "length (pred_of g n) \<le> 1" "length (succ_of g n) \<le> 1"
  using assms by (auto simp: linear_chain_def list_all_iff)

lemma walk_first_is_entry:
  assumes w: "walk_graph g W m" and c: "linear_chain g"
  shows "pred_of g (W 0) = []"
proof -
  from c obtain r where r: "get_starting_nodes g = [r]"
    by (auto simp: linear_chain_def length_Suc_conv)
  then have "r \<in> set (get_starting_nodes g)" by simp
  then have rn: "r \<in> set (nodes g)" and rp: "pred_of g r = []"
    by (auto simp: get_starting_nodes_def)
  from rn w obtain t where t: "t \<le> m" "r = W t"
    by (auto simp: walk_graph_def)
  show ?thesis
  proof (cases t)
    case 0
    with t rp show ?thesis by simp
  next
    case (Suc t')
    with t have "t' < m" by simp
    from walk_pred[OF w this] rp t Suc show ?thesis by simp
  qed
qed

lemma walk_distinct:
  assumes w: "walk_graph g W m" and c: "linear_chain g"
  shows "j \<le> m \<Longrightarrow> i < j \<Longrightarrow> W i \<noteq> W j"
proof (induction j arbitrary: i rule: less_induct)
  case (less j)
  show ?case
  proof
    assume eq: "W i = W j"
    from less.prems obtain j' where j': "j = Suc j'" "j' < m"
      by (cases j) auto
    have pj: "W j' \<in> set (pred_of g (W j))"
      using walk_pred[OF w j'(2)] j'(1) by simp
    show False
    proof (cases i)
      case 0
      with eq pj walk_first_is_entry[OF w c] show False by simp
    next
      case (Suc i')
      with less.prems j' have i': "i' < m" "i' < j'" by auto
      have pi: "W i' \<in> set (pred_of g (W j))"
        using walk_pred[OF w i'(1)] Suc eq by simp
      have "length (pred_of g (W j)) \<le> 1"
        using chain_degrees(1)[OF c walk_node[OF w less.prems(1)]] .
      from short_list_same[OF this pi pj] have "W i' = W j'" .
      moreover have "W i' \<noteq> W j'"
        using less.IH[of j' i'] j' i' by simp
      ultimately show False by simp
    qed
  qed
qed

lemma walk_inj: 
  assumes "walk_graph g W m" "linear_chain g" "i \<le> m" "j \<le> m" "W i = W j"
  shows "i = j"
  using walk_distinct[OF assms(1,2), of i j] walk_distinct[OF assms(1,2), of j i] assms(3-)
  by (metis linorder_neqE_nat)

lemma walk_succ_eq:
  assumes w: "walk_graph g W m" and c: "linear_chain g" and i: "i < m"
  shows "succ_of g (W i) = [W (Suc i)]"
  using short_list_eq[OF chain_degrees(2)[OF c walk_node[OF w]] walk_succ[OF w i]] i by simp

lemma walk_last_is_sink:
  assumes w: "walk_graph g W m" and c: "linear_chain g"
  shows "succ_of g (W m) = []"
proof (rule ccontr)
  assume "succ_of g (W m) \<noteq> []"
  then obtain v where "v \<in> set (succ_of g (W m))"
    by (cases "succ_of g (W m)") auto
  then have "(W m, v) \<in> set (map fst (edges g))" by (simp add: in_succ_of)
  with w obtain i where i: "i < m" "W m = W i" by (auto simp: walk_graph_def)
  from walk_inj[OF w c _ _ i(2)] i(1) show False by simp
qed

lemma walk_starting_nodes:
  assumes w: "walk_graph g W m" and c: "linear_chain g"
  shows "get_starting_nodes g = [W 0]"
proof -
  have "W 0 \<in> set (get_starting_nodes g)"
    using walk_first_is_entry[OF w c] walk_node[OF w, of 0]
    by (simp add: get_starting_nodes_def)
  moreover have "length (get_starting_nodes g) \<le> 1"
    using c by (simp add: linear_chain_def)
  ultimately show ?thesis by (rule short_list_eq[rotated])
qed

lemma walk_sink_nodes:
  assumes w: "walk_graph g W m" and c: "linear_chain g"
  shows "get_sink_nodes g = [W m]"
proof -
  have "W m \<in> set (get_sink_nodes g)"
    using walk_last_is_sink[OF w c] walk_node[OF w, of m]
    by (simp add: get_sink_nodes_def)
  moreover have "length (get_sink_nodes g) \<le> 1"
    using c by (simp add: linear_chain_def)
  ultimately show ?thesis by (rule short_list_eq[rotated])
qed

lemma walk_node_count:
  assumes w: "walk_graph g W m" and c: "linear_chain g"
  shows "m < length (nodes g)"
proof -
  have "inj_on W {..m}"
    using walk_inj[OF w c] by (auto simp: inj_on_def)
  then have "card (W ` {..m}) = Suc m"
    by (simp add: card_image)
  moreover have "card (set (nodes g)) \<le> length (nodes g)"
    by (rule card_length)
  ultimately show ?thesis
    using w by (simp add: walk_graph_def)
qed


lemma succ_step_mono: "x \<in> set S \<Longrightarrow> x \<in> set (succ_step g S)"
  by (simp add: succ_step_def)

lemma succ_step_succ: "x \<in> set S \<Longrightarrow> y \<in> set (succ_of g x) \<Longrightarrow> y \<in> set (succ_step g S)"
  by (auto simp: succ_step_def)

lemma iterate_succ_step_mono: "x \<in> set S \<Longrightarrow> x \<in> set (iterate n (succ_step g) S)"
  by (induction n arbitrary: S) (simp_all add: succ_step_mono)

lemma walk_iterate:
  assumes w: "walk_graph g W m"
  shows "W i \<in> set S \<Longrightarrow> i + n \<le> m \<Longrightarrow> W (i + n) \<in> set (iterate n (succ_step g) S)"
proof (induction n arbitrary: S i)
  case 0
  then show ?case by simp
next
  case (Suc n)
  have "W (Suc i) \<in> set (succ_step g S)"
    using succ_step_succ[OF Suc.prems(1) walk_succ[OF w]] Suc.prems(2) by simp
  from Suc.IH[OF this] Suc.prems(2) show ?case by simp
qed

lemma iterate_add: "iterate (a + b) f x = iterate b f (iterate a f x)"
  by (induction a arbitrary: x) simp_all

lemma walk_has_path:
  assumes w: "walk_graph g W m" and c: "linear_chain g"
  shows "has_path g (W 0) (W m) = Inr True"
proof -
  obtain r where r: "length (nodes g) = m + r"
    using walk_node_count[OF w c] by (metis less_imp_add_positive)
  have "W (0 + m) \<in> set (iterate m (succ_step g) [W 0])"
    by (rule walk_iterate[OF w]) simp_all
  then have "W m \<in> set (iterate r (succ_step g) (iterate m (succ_step g) [W 0]))"
    by (simp add: iterate_succ_step_mono)
  then have "W m \<in> set (reachable_from g (W 0))"
    by (simp add: reachable_from_def r iterate_add)
  then show ?thesis
    using walk_node[OF w, of 0] walk_node[OF w, of m] by (simp add: has_path_def)
qed

lemma walk_simple_paths_from:
  assumes w: "walk_graph g W m" and c: "linear_chain g"
  shows "i < m \<Longrightarrow> m - i \<le> fuel \<Longrightarrow>
         simple_paths_from fuel g [W m] (rev (map W [0..<Suc i])) (W i) = [map W [0..<Suc m]]"
proof (induction fuel arbitrary: i)
  case 0
  then show ?case by simp
next
  case (Suc fuel)
  have sc: "succ_of g (W i) = [W (Suc i)]"
    by (rule walk_succ_eq[OF w c Suc.prems(1)])
  have fresh: "W (Suc i) \<notin> set (rev (map W [0..<Suc i]))"
  proof
    assume "W (Suc i) \<in> set (rev (map W [0..<Suc i]))"
    then have "W (Suc i) \<in> W ` {..i}" by (auto simp: less_Suc_eq_le)
    then obtain j where "j \<le> i" "W (Suc i) = W j" by blast
    with walk_inj[OF w c, of "Suc i" j] Suc.prems(1) show False by simp
  qed
  have vis: "W (Suc i) # rev (map W [0..<Suc i]) = rev (map W [0..<Suc (Suc i)])"
    by simp
  show ?case
  proof (cases "Suc i = m")
    case True
    have "rev (W (Suc i) # rev (map W [0..<Suc i])) = map W [0..<Suc m]"
      using True by simp
    then show ?thesis
      using fresh True sc by (simp del: upt_Suc rev.simps)
  next
    case False
    with Suc.prems have lt: "Suc i < m" "m - Suc i \<le> fuel" by auto
    have ne: "W (Suc i) \<noteq> W m"
      using walk_inj[OF w c, of "Suc i" m] lt by auto
    have notin: "W m \<notin> set (rev (map W [0..<Suc i]))"
    proof
      assume "W m \<in> set (rev (map W [0..<Suc i]))"
      then have "W m \<in> W ` {..i}" by (auto simp: less_Suc_eq_le)
      then obtain j where "j \<le> i" "W m = W j" by blast
      with walk_inj[OF w c, of m j] Suc.prems(1) show False by simp
    qed
    have "simple_paths_from (Suc fuel) g [W m] (rev (map W [0..<Suc i])) (W i) =
          simple_paths_from fuel g [W m] (W (Suc i) # rev (map W [0..<Suc i])) (W (Suc i))"
      using fresh ne notin sc by (simp del: upt_Suc rev.simps)
    also have "\<dots> = [map W [0..<Suc m]]"
      unfolding vis by (rule Suc.IH[OF lt])
    finally show ?thesis .
  qed
qed

lemma walk_all_simple_paths:
  assumes w: "walk_graph g W m" and c: "linear_chain g" and m: "0 < m"
  shows "all_simple_paths g (W 0) (W m) = Inr [map W [0..<Suc m]]"
proof -
  have ne: "W 0 \<noteq> W m"
    using walk_inj[OF w c, of 0 m] m by auto
  have len: "m \<le> nat (int (length (nodes g)) - 1)"
    using walk_node_count[OF w c] by simp
  have "simple_paths_from (nat (int (length (nodes g)) - 1)) g [W m] [W 0] (W 0) = [map W [0..<Suc m]]"
    using walk_simple_paths_from[OF w c m, of "nat (int (length (nodes g)) - 1)"] len by simp
  moreover have "nodes g \<noteq> []"
    using walk_node_count[OF w c] by auto
  ultimately show ?thesis
    using walk_node[OF w, of 0] walk_node[OF w, of m] ne
    by (simp add: all_simple_paths_def Let_def del: upt_Suc)
qed

lemma map_err_map_Inr:
  "(\<And>x. x \<in> set xs \<Longrightarrow> f (w x) = Inr (h x)) \<Longrightarrow> map_err f (map w xs) = Inr (map h xs)"
  by (induction xs) simp_all

lemma walk_get_contigs:
  assumes w: "walk_graph g W m" and c: "linear_chain g" and m: "0 < m"
    and p: "contig_of_path (map W [0..<Suc m]) = Inr contig"
  shows "get_contigs g (get_starting_nodes g) (get_sink_nodes g) = Inr [contig]"
  using p
  by (simp add: get_contigs_def contigs_between_def walk_starting_nodes[OF w c]
      walk_sink_nodes[OF w c] walk_has_path[OF w c] walk_all_simple_paths[OF w c m]
      del: upt_Suc)


lemma cut_kmer_windows:
  assumes "0 < k" "k \<le> int (length s)"
  shows "cut_kmer s k = map (\<lambda>i. take (nat k) (drop i s)) [0..<Suc (length s - nat k)]"
proof -
  have n: "nat (int (length s) - k + 1) = Suc (length s - nat k)"
    using assms by linarith
  have "py_slice s (int i) (int i + k) = take (nat k) (drop i s)"
    if "i < Suc (length s - nat k)" for i
  proof -
    have "py_bound (length s) (int i) = i"
      using that assms by (simp add: py_bound_def)
    moreover have "py_bound (length s) (int i + k) = i + nat k"
      using that assms by (simp add: py_bound_def)
    ultimately show ?thesis
      by (simp add: py_slice_def)
  qed
  then show ?thesis
    by (simp add: cut_kmer_def py_range_def n del: upt_Suc)
qed

lemma dict_set_keys:
  "map fst (dict_set k v c) = (if k \<in> set (map fst c) then map fst c else map fst c @ [k])"
  by (induction c) auto

lemma dict_set_values: "set (dict_set k v c) \<subseteq> insert (k, v) (set c)"
  by (induction c) auto

lemma counter_get_nonneg: "\<forall>p \<in> set c. 0 < snd p \<Longrightarrow> 0 \<le> counter_get c k"
  by (fastforce simp: counter_get_def split: option.splits dest!: map_of_SomeD)

lemma counter_ok_add:
  assumes "counter_ok c" "0 < n"
  shows "counter_ok (counter_add c k n)"
proof -
  have "0 \<le> counter_get c k"
    using assms(1) by (intro counter_get_nonneg) (simp add: counter_ok_def)
  then have "0 < snd p" if "p \<in> set (counter_add c k n)" for p
    using that assms dict_set_values[of k "counter_get c k + n" c]
    by (auto simp: counter_add_def counter_ok_def)
  then show ?thesis
    using assms(1) by (auto simp: counter_ok_def counter_add_def dict_set_keys)
qed

lemma counter_add_keys: "set (map fst (counter_add c k n)) = insert k (set (map fst c))"
  by (auto simp: counter_add_def dict_set_keys)

lemma foldl_counter_add:
  assumes "counter_ok c" "\<And>x. x \<in> set xs \<Longrightarrow> 0 < h x"
  shows "counter_ok (foldl (\<lambda>c x. counter_add c (f x) (h x)) c xs) \<and>
         set (map fst (foldl (\<lambda>c x. counter_add c (f x) (h x)) c xs)) = set (map fst c) \<union> f ` set xs"
  using assms
proof (induction xs arbitrary: c)
  case Nil
  then show ?case by simp
next
  case (Cons x xs)
  have "counter_ok (counter_add c (f x) (h x))"
    using Cons.prems by (intro counter_ok_add) simp_all
  from Cons.IH[OF this] Cons.prems(2) show ?case
    by (simp add: counter_add_keys del: set_map)
qed

lemma build_kmer_dict_keys:
  assumes "build_kmer_dict [s] k = Inr d"
  shows "set (map fst d) = set (cut_kmer s k)"
proof -
  let ?c = "Counter (cut_kmer s k)"
  have c: "counter_ok ?c \<and> set (map fst ?c) = set (cut_kmer s k)"
    using foldl_counter_add[of "[]" "cut_kmer s k" "\<lambda>_. 1" "\<lambda>x. x"]
    by (simp add: Counter_def counter_ok_def)
  let ?d = "foldl (\<lambda>c p. counter_add c (fst p) (snd p)) [] ?c"
  have d: "counter_ok ?d \<and> set (map fst ?d) = set (map fst ?c)"
    using foldl_counter_add[of "[]" ?c snd fst] c
    by (simp add: counter_ok_def)
  have "keep_positive ?d = ?d"
    using d by (auto simp: keep_positive_def counter_ok_def filter_id_conv)
  with assms c d show ?thesis
    by (simp add: build_kmer_dict_def counter_iadd_def)
qed

lemma add_edge_nodes: "set (nodes (add_edge g u v w)) = insert u (insert v (set (nodes g)))"
  by (auto simp: add_edge_def add_node_def Let_def)

lemma add_edge_edges:
  "set (map fst (edges (add_edge g u v w))) = insert (u, v) (set (map fst (edges g)))"
  by (auto simp: add_edge_def add_node_def Let_def dict_set_keys)

lemma build_graph_sets:
  "set (nodes (foldl (\<lambda>digraph item. add_edge digraph (butlast (fst item)) (drop 1 (fst item)) (snd item)) g d)) =
     set (nodes g) \<union> butlast ` set (map fst d) \<union> drop 1 ` set (map fst d) \<and>
   set (map fst (edges (foldl (\<lambda>digraph item. add_edge digraph (butlast (fst item)) (drop 1 (fst item)) (snd item)) g d))) =
     set (map fst (edges g)) \<union> (\<lambda>kmer. (butlast kmer, drop 1 kmer)) ` set (map fst d)"
proof (induction d arbitrary: g)
  case Nil
  then show ?case by simp
next
  case (Cons item d)
  show ?case
    using Cons.IH[of "add_edge g (butlast (fst item)) (drop 1 (fst item)) (snd item)"]
    by (auto simp: add_edge_nodes add_edge_edges simp del: set_map)
qed


lemma window_prefix:
  "i + n \<le> length s \<Longrightarrow> 0 < n \<Longrightarrow> butlast (window_at s n i) = window_at s (n - 1) i"
  by (simp add: window_at_def butlast_take)

lemma window_suffix: "drop 1 (window_at s n i) = window_at s (n - 1) (Suc i)"
  by (simp add: window_at_def drop_take)

lemma built_walk_graph:
  assumes k: "0 < k" "k \<le> int (length s)"
    and d: "build_kmer_dict [s] k = Inr d"
  shows "walk_graph (build_graph d) (window_at s (nat k - 1)) (Suc (length s - nat k))"
proof -
  let ?K = "nat k" and ?m = "Suc (length s - nat k)"
  have K: "0 < ?K" "?K \<le> length s" using k by auto
  have keys: "set (map fst d) = window_at s ?K ` {..<?m}"
    using build_kmer_dict_keys[OF d] cut_kmer_windows[OF k]
    by (auto simp: window_at_def simp del: upt_Suc)
  have pre: "butlast (window_at s ?K i) = window_at s (?K - 1) i" if "i < ?m" for i
    using that K by (intro window_prefix) auto
  have nodes: "set (nodes (build_graph d)) =
      (\<lambda>i. window_at s (?K - 1) i) ` {..<?m} \<union> (\<lambda>i. window_at s (?K - 1) (Suc i)) ` {..<?m}"
    using build_graph_sets[of empty_graph d] pre
    by (auto simp: build_graph_def keys empty_graph_def window_suffix image_image
        simp del: set_map One_nat_def)
  have "(\<lambda>i. window_at s (?K - 1) i) ` {..<?m} \<union> (\<lambda>i. window_at s (?K - 1) (Suc i)) ` {..<?m} =
        window_at s (?K - 1) ` {..?m}"
  proof (rule set_eqI, rule iffI)
    fix x
    assume "x \<in> (\<lambda>i. window_at s (?K - 1) i) ` {..<?m} \<union> (\<lambda>i. window_at s (?K - 1) (Suc i)) ` {..<?m}"
    then show "x \<in> window_at s (?K - 1) ` {..?m}" by auto
  next
    fix x
    assume "x \<in> window_at s (?K - 1) ` {..?m}"
    then obtain i where i: "i \<le> ?m" "x = window_at s (?K - 1) i" by auto
    show "x \<in> (\<lambda>i. window_at s (?K - 1) i) ` {..<?m} \<union> (\<lambda>i. window_at s (?K - 1) (Suc i)) ` {..<?m}"
    proof (cases i)
      case 0
      with i show ?thesis by auto
    next
      case (Suc j)
      with i have "j < ?m" by simp
      with i Suc show ?thesis by blast
    qed
  qed
  with nodes have n: "set (nodes (build_graph d)) = window_at s (?K - 1) ` {..?m}" by simp
  have e: "set (map fst (edges (build_graph d))) =
      (\<lambda>i. (window_at s (?K - 1) i, window_at s (?K - 1) (Suc i))) ` {..<?m}"
    using build_graph_sets[of empty_graph d] pre
    by (auto simp: build_graph_def keys empty_graph_def window_suffix image_image
        simp del: set_map One_nat_def)
  from n e show ?thesis
    by (simp add: walk_graph_def del: set_map)
qed

lemma windows_contig:
  assumes n: "0 < n" and m: "n + m = length s"
  shows "contig_of_path (map (window_at s n) [0..<Suc m]) = Inr (s, length s)"
proof -
  have cons: "map (window_at s n) [0..<Suc m] = window_at s n 0 # map (window_at s n) [1..<Suc m]"
    by (simp add: upt_rec[of 0] del: upt_Suc)
  have lc: "last_char (window_at s n i) = Inr (s ! (i + n - 1))" if "i \<in> set [1..<Suc m]" for i
  proof -
    from that m have i: "i + n \<le> length s" by auto
    then have len: "length (window_at s n i) = n" by (simp add: window_at_def)
    with n have ne: "window_at s n i \<noteq> []" by auto
    have "last (window_at s n i) = window_at s n i ! (n - 1)"
      using ne len by (simp add: last_conv_nth)
    also have "\<dots> = s ! (i + n - 1)"
      using i n by (simp add: window_at_def)
    finally show ?thesis using ne by (simp add: last_char_def)
  qed
  have tail: "map (\<lambda>i. s ! (i + n - 1)) [1..<Suc m] = drop n s"
  proof (rule nth_equalityI)
    show "length (map (\<lambda>i. s ! (i + n - 1)) [1..<Suc m]) = length (drop n s)"
      using m by auto
  next
    fix j
    assume "j < length (map (\<lambda>i. s ! (i + n - 1)) [1..<Suc m])"
    then have j: "j < m" by (simp del: upt_Suc)
    then have "map (\<lambda>i. s ! (i + n - 1)) [1..<Suc m] ! j = s ! (Suc j + n - 1)"
      by (simp del: upt_Suc)
    also have "\<dots> = drop n s ! j"
      using j m n by (simp add: add.commute)
    finally show "map (\<lambda>i. s ! (i + n - 1)) [1..<Suc m] ! j = drop n s ! j" .
  qed
  have "map_err last_char (map (window_at s n) [1..<Suc m]) =
        Inr (map (\<lambda>i. s ! (i + n - 1)) [1..<Suc m])"
    by (rule map_err_map_Inr) (rule lc)
  then have "map_err last_char (map (window_at s n) [1..<Suc m]) = Inr (drop n s)"
    by (simp only: tail)
  moreover have "window_at s n 0 @ drop n s = s"
    by (simp add: window_at_def)
  ultimately show ?thesis
    by (simp add: contig_of_path_def cons del: upt_Suc)
qed


text \<open>
  Claim C8. Let \<open>s\<close> be a string of length at least \<open>k\<close>, \<open>k\<close> positive, and
  let the graph built from the k-mer mapping of the single read \<open>s\<close> be a linear
  chain. Then \<^verbatim>\<open>get_contigs\<close>, called with the entry nodes and the exit nodes of
  that graph, returns exactly one contig, which is \<open>s\<close> with its length.
\<close>

theorem contig_round_trip:
  assumes k: "0 < k" "k \<le> int (length s)"
    and d: "build_kmer_dict [s] k = Inr d"
    and c: "linear_chain (build_graph d)"
  shows "get_contigs (build_graph d) (get_starting_nodes (build_graph d))
           (get_sink_nodes (build_graph d)) = Inr [(s, length s)]"
proof -
  let ?n = "nat k - 1" and ?m = "Suc (length s - nat k)"
  have w: "walk_graph (build_graph d) (window_at s ?n) ?m"
    by (rule built_walk_graph[OF k d])
  have "window_at s ?n 0 \<noteq> window_at s ?n 1"
    using walk_inj[OF w c, of 0 1] by auto
  then have n: "0 < ?n"
    by (cases "?n = 0") (simp_all add: window_at_def)
  have "?n + ?m = length s"
    using k n by auto
  from windows_contig[OF n this] have
    "contig_of_path (map (window_at s ?n) [0..<Suc ?m]) = Inr (s, length s)" .
  from walk_get_contigs[OF w c _ this] show ?thesis by simp
qed

theorem contig_round_trip_witness:
  "(0 :: int) < 4 \<and> 4 \<le> int (length ''AACCGGTTA'') \<and>
   build_kmer_dict [''AACCGGTTA''] 4 =
     Inr [(''AACC'', 1), (''ACCG'', 1), (''CCGG'', 1), (''CGGT'', 1), (''GGTT'', 1), (''GTTA'', 1)] \<and>
   linear_chain (build_graph
     [(''AACC'', 1), (''ACCG'', 1), (''CCGG'', 1), (''CGGT'', 1), (''GGTT'', 1), (''GTTA'', 1)]) \<and>
   get_contigs
     (build_graph
        [(''AACC'', 1), (''ACCG'', 1), (''CCGG'', 1), (''CGGT'', 1), (''GGTT'', 1), (''GTTA'', 1)])
     (get_starting_nodes (build_graph
        [(''AACC'', 1), (''ACCG'', 1), (''CCGG'', 1), (''CGGT'', 1), (''GGTT'', 1), (''GTTA'', 1)]))
     (get_sink_nodes (build_graph
        [(''AACC'', 1), (''ACCG'', 1), (''CCGG'', 1), (''CGGT'', 1), (''GGTT'', 1), (''GTTA'', 1)])) =
     Inr [(''AACCGGTTA'', length ''AACCGGTTA'')]"
proof -
  have h1: "(0 :: int) < 4"
    by simp
  have h2: "4 \<le> int (length ''AACCGGTTA'')"
    by simp
  have h3: "build_kmer_dict [''AACCGGTTA''] 4 =
     Inr [(''AACC'', 1), (''ACCG'', 1), (''CCGG'', 1), (''CGGT'', 1), (''GGTT'', 1), (''GTTA'', 1)]"
    by code_simp
  have h4: "linear_chain (build_graph
     [(''AACC'', 1), (''ACCG'', 1), (''CCGG'', 1), (''CGGT'', 1), (''GGTT'', 1), (''GTTA'', 1)])"
    by code_simp
  show ?thesis
    using h1 h2 h3 h4 contig_round_trip [OF h1 h2 h3 h4] by blast
qed

end
